theory Spec2Isabelle
  imports Main "HOL-Library.List_Lexorder"
begin

section \<open>Strings and the character database\<close>

text \<open>
  A Python \<open>str\<close> is a sequence of Unicode code points, so a string is a list of
  natural numbers; \<open>ustr\<close> turns a literal into one.  The ASCII part of every character
  class is written out.  What Python reads from the Unicode database for a code point
  from 128 on (\<open>str.isdecimal\<close>, \<open>str.isalnum\<close>, the simple lower-case mapping used by
  \<open>re.IGNORECASE\<close>, and \<open>str.lower\<close>) is not part of the program and is a parameter.
\<close>

type_synonym ustring = "nat list"

definition ustr :: "string \<Rightarrow> ustring" where
  "ustr s = map of_char s"

record ucd =
  ucd_isdecimal :: "nat \<Rightarrow> bool"
  ucd_isalnum :: "nat \<Rightarrow> bool"
  ucd_tolower :: "nat \<Rightarrow> nat"
  ucd_lower :: "ustring \<Rightarrow> ustring"

text \<open>\<open>str.isspace\<close>, which is also the class \<open>\s\<close>: the full list of CPython.\<close>

definition py_isspace :: "nat \<Rightarrow> bool" where
  "py_isspace c =
     ((9 \<le> c \<and> c \<le> 13) \<or> (28 \<le> c \<and> c \<le> 32) \<or> c = 133 \<or> c = 160 \<or> c = 5760 \<or>
      (8192 \<le> c \<and> c \<le> 8202) \<or> c = 8232 \<or> c = 8233 \<or> c = 8239 \<or> c = 8287 \<or>
      c = 12288)"

definition ascii_cased :: "nat \<Rightarrow> bool" where
  "ascii_cased c = ((65 \<le> c \<and> c \<le> 90) \<or> (97 \<le> c \<and> c \<le> 122))"

definition ascii_lower :: "nat \<Rightarrow> nat" where
  "ascii_lower c = (if 65 \<le> c \<and> c \<le> 90 then c + 32 else c)"

definition py_isdecimal :: "ucd \<Rightarrow> nat \<Rightarrow> bool" where
  "py_isdecimal U c = (if c < 128 then 48 \<le> c \<and> c \<le> 57 else ucd_isdecimal U c)"

definition py_isalnum :: "ucd \<Rightarrow> nat \<Rightarrow> bool" where
  "py_isalnum U c =
     (if c < 128 then (48 \<le> c \<and> c \<le> 57) \<or> ascii_cased c else ucd_isalnum U c)"

definition py_isword :: "ucd \<Rightarrow> nat \<Rightarrow> bool" where
  "py_isword U c = (py_isalnum U c \<or> c = 95)"

definition py_tolower :: "ucd \<Rightarrow> nat \<Rightarrow> nat" where
  "py_tolower U c = (if c < 128 then ascii_lower c else ucd_tolower U c)"

definition py_lower :: "ucd \<Rightarrow> ustring \<Rightarrow> ustring" where
  "py_lower U s = (if list_all (\<lambda>c. c < 128) s then map ascii_lower s else ucd_lower U s)"

text \<open>\<open>str.strip()\<close> with no argument removes white space at both ends.\<close>

definition strip :: "ustring \<Rightarrow> ustring" where
  "strip s = rev (dropWhile py_isspace (rev (dropWhile py_isspace s)))"

section \<open>The regular expressions of module \<open>re\<close>\<close>

text \<open>
  The fragment the program uses: literals, \<open>\s\<close>, \<open>\d\<close>, greedy repetition of one
  character class (\<open>+\<close> and \<open>{m,n}\<close>), sequence, alternation, one capturing group, and
  the anchors \<open>^\<close>, \<open>$\<close> and \<open>\b\<close>.  Pattern literals are ASCII.
\<close>

datatype atom = Lit nat | Space | Digit

datatype regex =
    Eps
  | Atom atom
  | Rep atom nat "nat option"
  | Seq regex regex
  | Alt regex regex
  | Group regex
  | Bol
  | Eol
  | WordB

fun lits :: "string \<Rightarrow> regex" where
  "lits [] = Eps"
| "lits [c] = Atom (Lit (of_char c))"
| "lits (c # cs) = Seq (Atom (Lit (of_char c))) (lits cs)"

text \<open>
  Under \<open>re.IGNORECASE\<close> a cased pattern letter matches every character whose simple
  lower case is the letter's lower case or one of the extra cases of the compiler's
  table (dotless i for \<open>i\<close>, long s for \<open>s\<close>).
\<close>

definition ignore_fixes :: "nat \<Rightarrow> nat list" where
  "ignore_fixes lo = (if lo = 105 then [305] else if lo = 115 then [383] else [])"

fun atom_match :: "ucd \<Rightarrow> bool \<Rightarrow> atom \<Rightarrow> nat \<Rightarrow> bool" where
  "atom_match U ic (Lit a) c =
     (if ic \<and> ascii_cased a
      then py_tolower U c \<in> set (ascii_lower a # ignore_fixes (ascii_lower a))
      else c = a)"
| "atom_match U ic Space c = py_isspace c"
| "atom_match U ic Digit c = py_isdecimal U c"

text \<open>
  A position is the character before it (if any) and the input after it.
  \<open>spans P hi p rest\<close> lists the positions reached by 0, 1, 2, ... characters of class
  \<open>P\<close>, at most \<open>hi\<close> of them.
\<close>

type_synonym pos = "nat option \<times> ustring"

fun spans :: "(nat \<Rightarrow> bool) \<Rightarrow> nat option \<Rightarrow> nat option \<Rightarrow> ustring \<Rightarrow> pos list" where
  "spans P hi p [] = [(p, [])]"
| "spans P hi p (c # cs) =
     (p, c # cs) #
     (if P c \<and> hi \<noteq> Some 0 then spans P (map_option (\<lambda>n. n - 1) hi) (Some c) cs else [])"

text \<open>
  The backtracking matcher: every way the pattern matches at a position, in the order
  in which \<open>re\<close> tries them (greedy repetition: longest first; alternation: left first),
  each with the text of group 1.
\<close>

fun mt :: "ucd \<Rightarrow> bool \<Rightarrow> regex \<Rightarrow> pos \<times> ustring option \<Rightarrow> (pos \<times> ustring option) list" where
  "mt U ic Eps st = [st]"
| "mt U ic (Atom a) ((p, rest), g) =
     (case rest of [] \<Rightarrow> []
      | c # cs \<Rightarrow> if atom_match U ic a c then [((Some c, cs), g)] else [])"
| "mt U ic (Rep a lo hi) ((p, rest), g) =
     map (\<lambda>q. (q, g)) (rev (drop lo (spans (atom_match U ic a) hi p rest)))"
| "mt U ic (Seq r1 r2) st = concat (map (mt U ic r2) (mt U ic r1 st))"
| "mt U ic (Alt r1 r2) st = mt U ic r1 st @ mt U ic r2 st"
| "mt U ic (Group r) ((p, rest), g) =
     map (\<lambda>((p', rest'), _). ((p', rest'), Some (take (length rest - length rest') rest)))
       (mt U ic r ((p, rest), g))"
| "mt U ic Bol ((p, rest), g) = (if p = None then [((p, rest), g)] else [])"
| "mt U ic Eol ((p, rest), g) = (if rest = [] \<or> rest = [10] then [((p, rest), g)] else [])"
| "mt U ic WordB ((p, rest), g) =
     (let that = (case p of None \<Rightarrow> False | Some c \<Rightarrow> py_isword U c);
          this = (case rest of [] \<Rightarrow> False | c # _ \<Rightarrow> py_isword U c)
      in if this \<noteq> that then [((p, rest), g)] else [])"

text \<open>
  A match object: where the match starts (\<open>m.start()\<close>), the input after it, and
  \<open>m.group(1)\<close>.  \<open>re.search\<close> takes the first match at the leftmost position that
  has one.
\<close>

type_synonym match = "nat \<times> ustring \<times> ustring option"

fun search_from :: "ucd \<Rightarrow> bool \<Rightarrow> regex \<Rightarrow> nat \<Rightarrow> nat option \<Rightarrow> ustring \<Rightarrow> match option" where
  "search_from U ic r i p [] =
     (case mt U ic r ((p, []), None) of
        ((p', rest'), g) # _ \<Rightarrow> Some (i, rest', g)
      | [] \<Rightarrow> None)"
| "search_from U ic r i p (c # cs) =
     (case mt U ic r ((p, c # cs), None) of
        ((p', rest'), g) # _ \<Rightarrow> Some (i, rest', g)
      | [] \<Rightarrow> search_from U ic r (i + 1) (Some c) cs)"

definition re_search :: "ucd \<Rightarrow> bool \<Rightarrow> regex \<Rightarrow> ustring \<Rightarrow> match option" where
  "re_search U ic r s = search_from U ic r 0 None s"

definition re_match :: "ucd \<Rightarrow> bool \<Rightarrow> regex \<Rightarrow> ustring \<Rightarrow> match option" where
  "re_match U ic r s =
     (case mt U ic r ((None, s), None) of
        ((p', rest'), g) # _ \<Rightarrow> Some (0, rest', g)
      | [] \<Rightarrow> None)"

text \<open>
  \<open>re.sub\<close> for a pattern that matches no empty string (the program's only one is
  \<open>\s+\<close>): every match, found from left to right, is replaced.
\<close>

function re_sub :: "ucd \<Rightarrow> bool \<Rightarrow> regex \<Rightarrow> ustring \<Rightarrow> nat option \<Rightarrow> ustring \<Rightarrow> ustring" where
  "re_sub U ic r repl p [] = []"
| "re_sub U ic r repl p (c # cs) =
     (case mt U ic r ((p, c # cs), None) of
        [] \<Rightarrow> c # re_sub U ic r repl (Some c) cs
      | ((p', rest'), g) # _ \<Rightarrow>
          if length rest' < length (c # cs) then repl @ re_sub U ic r repl p' rest'
          else c # re_sub U ic r repl (Some c) cs)"
  by pat_completeness auto
termination
  by (relation "measure (\<lambda>(U, ic, r, repl, p, rest). length rest)") auto

section \<open>The parser\<close>

definition PNG_RE :: regex where
  "PNG_RE = Seq (lits ''.png'') Eol"

definition norm_spaces :: "ucd \<Rightarrow> ustring \<Rightarrow> ustring" where
  "norm_spaces U s = strip (re_sub U False (Rep Space 1 None) (ustr '' '') None s)"

record descriptor =
  original :: ustring
  family :: ustring
  size' :: ustring
  variant :: ustring
  tone :: ustring

definition tone_re :: regex where
  "tone_re = Seq (Rep Space 1 None) (Seq (Group (Alt (lits ''light'') (lits ''dark''))) Eol)"

definition size_re :: regex where
  "size_re = Group (Seq (Rep Digit 2 (Some 4)) (Seq (lits ''x'') (Rep Digit 2 (Some 4))))"

definition word_re :: "string \<Rightarrow> regex" where
  "word_re w = Seq WordB (Seq (lits w) WordB)"

definition ckt_re :: regex where
  "ckt_re = Seq Bol (Seq (lits ''ckt'') WordB)"

text \<open>
  Lines 22 to 32: the extension, the normalised base, the tone and the base without
  it.  The group of \<open>tone_re\<close> takes part in every match, so \<open>m_tone.group(1)\<close> is
  never \<open>None\<close>.
\<close>

definition parse_tone :: "ucd \<Rightarrow> ustring \<Rightarrow> (ustring \<times> ustring) option" where
  "parse_tone U name =
     (if re_search U True PNG_RE name = None then None
      else
        let base = norm_spaces U (take (length name - 4) name) in
        case re_search U True tone_re base of
          None \<Rightarrow> None
        | Some (start, _, None) \<Rightarrow> None
        | Some (start, _, Some g) \<Rightarrow> Some (py_lower U g, strip (take start base)))"

text \<open>Lines 35 to 38.\<close>

definition parse_size :: "ucd \<Rightarrow> ustring \<Rightarrow> ustring option" where
  "parse_size U base_wo_tone =
     (case re_search U True size_re base_wo_tone of
        None \<Rightarrow> None
      | Some (_, _, None) \<Rightarrow> None
      | Some (_, _, Some g) \<Rightarrow> Some (py_lower U g))"

text \<open>Lines 41 to 50.\<close>

definition parse_family :: "ucd \<Rightarrow> ustring \<Rightarrow> ustring option" where
  "parse_family U base_wo_tone =
     (if re_search U True (word_re ''template'') base_wo_tone \<noteq> None then Some (ustr ''template'')
      else if re_search U True (word_re ''aquarell'') base_wo_tone \<noteq> None then Some (ustr ''aquarell'')
      else if re_match U True ckt_re base_wo_tone \<noteq> None then Some (ustr ''template'')
      else None)"

text \<open>Lines 57 to 63.\<close>

definition parse_variant :: "ucd \<Rightarrow> ustring \<Rightarrow> ustring" where
  "parse_variant U base_wo_tone =
     (if re_search U True (word_re ''cropped'') base_wo_tone \<noteq> None then ustr ''crop''
      else if re_search U True (word_re ''small close'') base_wo_tone \<noteq> None then ustr ''close''
      else if re_search U True (word_re ''small far'') base_wo_tone \<noteq> None then ustr ''full''
      else ustr ''full'')"

definition parse_filename :: "ucd \<Rightarrow> ustring \<Rightarrow> descriptor option" where
  "parse_filename U name =
     (case parse_tone U name of
        None \<Rightarrow> None
      | Some (tn, base_wo_tone) \<Rightarrow>
          (case parse_size U base_wo_tone of
             None \<Rightarrow> None
           | Some sz \<Rightarrow>
               (case parse_family U base_wo_tone of
                  None \<Rightarrow> None
                | Some fam \<Rightarrow>
                    Some \<lparr>original = name, family = fam, size' = sz,
                          variant = parse_variant U base_wo_tone, tone = tn\<rparr>)))"

definition build_new_name :: "descriptor \<Rightarrow> ustring" where
  "build_new_name parsed =
     ustr ''ckt-'' @ family parsed @ ustr ''-'' @ size' parsed @ ustr ''-'' @
     variant parsed @ ustr ''-'' @ tone parsed @ ustr ''.png''"

section \<open>The planner\<close>

text \<open>
  The operating system is a parameter of \<open>main\<close>: the entries of the working directory
  with their \<open>is_file\<close> flag, \<open>Path.exists\<close>, and the two move primitives
  (\<open>git mv\<close> run with \<open>check=True\<close>, and \<open>Path.rename\<close>).  A move returns the file
  system it leaves and the exception it raised, if any.
\<close>

record args =
  args_apply :: bool
  args_use_git :: bool

type_synonym ('fs, 'e) mover = "'fs \<Rightarrow> ustring \<Rightarrow> ustring \<Rightarrow> 'e option \<times> 'fs"

record ('fs, 'e) os =
  os_iterdir :: "'fs \<Rightarrow> (ustring \<times> bool) list"
  os_exists :: "'fs \<Rightarrow> ustring \<Rightarrow> bool"
  os_git_mv :: "('fs, 'e) mover"
  os_rename :: "('fs, 'e) mover"

text \<open>
  How a run ends: the message printed before \<open>return\<close> with the names it lists, or
  the exception that leaves \<open>main\<close>.
\<close>

datatype 'e outcome =
    NoMatches
  | Collisions "ustring list"
  | TargetsExist "ustring list"
  | DryRun "(ustring \<times> ustring) list"
  | Done "(ustring \<times> ustring) list"
  | Raised 'e

text \<open>Line 84.  POSIX paths of one directory are ordered by their names.\<close>

definition main_pngs :: "ucd \<Rightarrow> ('fs, 'e) os \<Rightarrow> 'fs \<Rightarrow> ustring list" where
  "main_pngs U os fs =
     sort (map fst (filter (\<lambda>(n, is_file). is_file \<and> re_search U True PNG_RE n \<noteq> None)
                      (os_iterdir os fs)))"

text \<open>Lines 86 to 94.\<close>

fun main_mappings :: "ucd \<Rightarrow> ustring list \<Rightarrow> (ustring \<times> ustring) list" where
  "main_mappings U [] = []"
| "main_mappings U (p # ps) =
     (case parse_filename U p of
        None \<Rightarrow> main_mappings U ps
      | Some parsed \<Rightarrow>
          let new_name = build_new_name parsed
          in if new_name = p then main_mappings U ps
             else (p, new_name) # main_mappings U ps)"

text \<open>Lines 101 to 105: the set of duplicated targets, in the order it is printed.\<close>

definition main_dupes :: "ustring list \<Rightarrow> ustring list" where
  "main_dupes targets = sort (remdups (filter (\<lambda>t. 1 < count_list targets t) targets))"

text \<open>Line 111.\<close>

definition main_existing :: "('fs, 'e) os \<Rightarrow> 'fs \<Rightarrow> (ustring \<times> ustring) list \<Rightarrow> ustring list" where
  "main_existing os fs mappings = filter (os_exists os fs) (map snd mappings)"

text \<open>Lines 127 to 131: an exception of a move ends the loop and the run.\<close>

fun main_apply :: "('fs, 'e) os \<Rightarrow> bool \<Rightarrow> (ustring \<times> ustring) list \<Rightarrow> 'fs \<Rightarrow> 'e option \<times> 'fs" where
  "main_apply os use_git [] fs = (None, fs)"
| "main_apply os use_git ((src, dst) # ms) fs =
     (case (if use_git then os_git_mv os fs src dst else os_rename os fs src dst) of
        (Some e, fs') \<Rightarrow> (Some e, fs')
      | (None, fs') \<Rightarrow> main_apply os use_git ms fs')"

definition main :: "ucd \<Rightarrow> ('fs, 'e) os \<Rightarrow> args \<Rightarrow> 'fs \<Rightarrow> 'e outcome \<times> 'fs" where
  "main U os a fs =
     (let pngs = main_pngs U os fs;
          mappings = main_mappings U pngs
      in if mappings = [] then (NoMatches, fs)
         else
           let targets = map snd mappings;
               dupes = main_dupes targets
           in if dupes \<noteq> [] then (Collisions dupes, fs)
              else
                let existing = main_existing os fs mappings
                in if existing \<noteq> [] then (TargetsExist existing, fs)
                   else if \<not> args_apply a then (DryRun mappings, fs)
                   else
                     (case main_apply os (args_use_git a) mappings fs of
                        (Some e, fs') \<Rightarrow> (Raised e, fs')
                      | (None, fs') \<Rightarrow> (Done mappings, fs')))"

section \<open>Sample environments\<close>

text \<open>
  The entries of the Unicode database for the three code points beyond ASCII that the
  examples use: U+0130 (capital I with dot above) lowers to \<open>i\<close>, and in \<open>str.lower\<close> to
  \<open>i\<close> followed by U+0307; U+0131 (dotless i) is a lower-case letter; U+212A (Kelvin
  sign) lowers to \<open>k\<close>.  Every other code point from 128 on is given no property and
  no case.
\<close>

definition ucd_sample :: ucd where
  "ucd_sample =
     \<lparr>ucd_isdecimal = (\<lambda>c. False),
      ucd_isalnum = (\<lambda>c. c = 304 \<or> c = 305 \<or> c = 8490),
      ucd_tolower = (\<lambda>c. if c = 304 then 105 else if c = 8490 then 107 else c),
      ucd_lower = (\<lambda>s. concat (map (\<lambda>c. if c = 304 then [105, 775]
                                          else if c = 8490 then [107]
                                          else [ascii_lower c]) s))\<rparr>"

text \<open>
  A directory as the list of its entries, where a move fails when its source is not
  there and otherwise renames the entry.
\<close>

definition dir_move :: "((ustring \<times> bool) list, ustring) mover" where
  "dir_move fs src dst =
     (if src \<in> fst ` set fs
      then (None, map (\<lambda>(n, f). if n = src then (dst, f) else (n, f)) fs)
      else (Some src, fs))"

definition dir_os :: "((ustring \<times> bool) list, ustring) os" where
  "dir_os =
     \<lparr>os_iterdir = (\<lambda>fs. fs),
      os_exists = (\<lambda>fs n. n \<in> fst ` set fs),
      os_git_mv = dir_move,
      os_rename = dir_move\<rparr>"

text \<open>The same directory, where the move of one name raises an exception.\<close>

definition failing_os :: "ustring \<Rightarrow> ((ustring \<times> bool) list, ustring) os" where
  "failing_os bad =
     \<lparr>os_iterdir = (\<lambda>fs. fs),
      os_exists = (\<lambda>fs n. n \<in> fst ` set fs),
      os_git_mv = (\<lambda>fs src dst. if src = bad then (Some src, fs) else dir_move fs src dst),
      os_rename = (\<lambda>fs src dst. if src = bad then (Some src, fs) else dir_move fs src dst)\<rparr>"

text \<open>The plan of a run and its targets (lines 86 to 101).\<close>

abbreviation plan_of :: "ucd \<Rightarrow> ('fs, 'e) os \<Rightarrow> 'fs \<Rightarrow> (ustring \<times> ustring) list" where
  "plan_of U os fs \<equiv> main_mappings U (main_pngs U os fs)"

abbreviation targets_of :: "ucd \<Rightarrow> ('fs, 'e) os \<Rightarrow> 'fs \<Rightarrow> ustring list" where
  "targets_of U os fs \<equiv> map snd (plan_of U os fs)"

abbreviation sources_of :: "ucd \<Rightarrow> ('fs, 'e) os \<Rightarrow> 'fs \<Rightarrow> ustring list" where
  "sources_of U os fs \<equiv> map fst (plan_of U os fs)"

text \<open>Sample directories and arguments.\<close>

abbreviation pair_dir :: "(ustring \<times> bool) list" where
  "pair_dir \<equiv>
     [(ustr ''CKT template 90x90 cropped light.png'', True),
      (ustr ''CKT TEMPLATE 90X90 CROPPED LIGHT.png'', True)]"

abbreviation pair_and_target_dir :: "(ustring \<times> bool) list" where
  "pair_and_target_dir \<equiv>
     [(ustr ''CKT template 90x90 cropped light.png'', True),
      (ustr ''CKT TEMPLATE 90X90 CROPPED LIGHT.png'', True),
      (ustr ''ckt-template-90x90-crop-light.png'', True)]"

abbreviation single_and_target_dir :: "(ustring \<times> bool) list" where
  "single_and_target_dir \<equiv>
     [(ustr ''CKT template 90x90 cropped light.png'', True),
      (ustr ''ckt-template-90x90-crop-light.png'', True)]"

abbreviation close_dir :: "(ustring \<times> bool) list" where
  "close_dir \<equiv>
     [(ustr ''ckt-template-60x50-close-dark.png'', True),
      (ustr ''CKT template small close 60x50 dark.png'', True),
      (ustr ''ckt TEMPLATE Small Close 60X50 Dark.PNG'', True)]"

abbreviation first_run_dir :: "(ustring \<times> bool) list" where
  "first_run_dir \<equiv>
     [(ustr ''CKT template 90x90 cropped light.png'', True),
      (ustr ''random_icon.png'', True)]"

abbreviation second_run_dir :: "(ustring \<times> bool) list" where
  "second_run_dir \<equiv>
     [(ustr ''ckt-template-90x90-crop-light.png'', True),
      (ustr ''random_icon.png'', True)]"

abbreviation three_dir :: "(ustring \<times> bool) list" where
  "three_dir \<equiv>
     [(ustr ''CKT template small close 60x50 dark.png'', True),
      (ustr ''CKT template 60x50 dark.png'', True),
      (ustr ''CKT template 90x90 cropped light.png'', True)]"

abbreviation three_dir_stopped :: "(ustring \<times> bool) list" where
  "three_dir_stopped \<equiv>
     [(ustr ''CKT template small close 60x50 dark.png'', True),
      (ustr ''ckt-template-60x50-full-dark.png'', True),
      (ustr ''CKT template 90x90 cropped light.png'', True)]"

abbreviation apply_args :: args where
  "apply_args \<equiv> \<lparr>args_apply = True, args_use_git = False\<rparr>"

text \<open>
  The moves of a plan applied one after the other, each without an exception, lead
  from one file system to another.
\<close>

fun applied_in_order :: "('fs, 'e) mover \<Rightarrow> (ustring \<times> ustring) list \<Rightarrow> 'fs \<Rightarrow> 'fs \<Rightarrow> bool" where
  "applied_in_order mv [] fs fs' = (fs' = fs)"
| "applied_in_order mv ((src, dst) # ms) fs fs' =
     (case mv fs src dst of
        (None, fs1) \<Rightarrow> applied_in_order mv ms fs1 fs'
      | (Some e, fs1) \<Rightarrow> False)"

definition the_mover :: "('fs, 'e) os \<Rightarrow> bool \<Rightarrow> ('fs, 'e) mover" where
  "the_mover os use_git = (if use_git then os_git_mv os else os_rename os)"

section \<open>Notions used in the statements\<close>

text \<open>
  The character classes that occur in a pattern, and those inside its group; strings
  without white space; and what the theorems on generated names assume of the Unicode
  database: white space is neither a decimal digit nor changed by lower-casing, and
  lower-casing a string without white space gives no white space.
\<close>

fun atoms :: "regex \<Rightarrow> atom set" where
  "atoms (Atom a) = {a}"
| "atoms (Rep a lo hi) = {a}"
| "atoms (Seq r1 r2) = atoms r1 \<union> atoms r2"
| "atoms (Alt r1 r2) = atoms r1 \<union> atoms r2"
| "atoms (Group r) = atoms r"
| "atoms r = {}"

fun group_atoms :: "regex \<Rightarrow> atom set" where
  "group_atoms (Seq r1 r2) = group_atoms r1 \<union> group_atoms r2"
| "group_atoms (Alt r1 r2) = group_atoms r1 \<union> group_atoms r2"
| "group_atoms (Group r) = atoms r"
| "group_atoms r = {}"

definition no_space :: "ustring \<Rightarrow> bool" where
  "no_space s = (\<forall>c\<in>set s. \<not> py_isspace c)"

definition ucd_ok :: "ucd \<Rightarrow> bool" where
  "ucd_ok U =
     ((\<forall>c. py_isspace c \<longrightarrow> \<not> py_isdecimal U c \<and> py_tolower U c = c) \<and>
      (\<forall>s. no_space s \<longrightarrow> no_space (py_lower U s)))"

text \<open>Strings of ASCII characters.\<close>

definition ascii :: "ustring \<Rightarrow> bool" where
  "ascii s = list_all (\<lambda>c. c < 128) s"

section \<open>Evaluation\<close>

lemmas regex_defs = PNG_RE_def tone_re_def size_re_def word_re_def ckt_re_def

lemmas char_defs = py_isspace_def ascii_cased_def ascii_lower_def py_isdecimal_def
  py_isalnum_def py_isword_def py_tolower_def py_lower_def ignore_fixes_def

lemmas main_defs = main_def main_pngs_def main_dupes_def main_existing_def dir_os_def
  dir_move_def ucd_sample_def Let_def

lemmas parse_defs = parse_filename_def parse_tone_def parse_size_def parse_family_def
  parse_variant_def norm_spaces_def strip_def re_search_def re_match_def
  build_new_name_def ustr_def

section \<open>What a match consumes and captures\<close>

lemma spans_consume:
  "q \<in> set (spans P hi p rest) \<Longrightarrow> \<exists>u. rest = u @ snd q \<and> (\<forall>c\<in>set u. P c)"
proof (induction rest arbitrary: hi p)
  case Nil
  then show ?case by simp
next
  case (Cons c cs)
  show ?case
  proof (cases "q = (p, c # cs)")
    case True
    then show ?thesis by simp
  next
    case False
    with Cons.prems have P: "P c" and q: "q \<in> set (spans P (map_option (\<lambda>n. n - 1) hi) (Some c) cs)"
      by (auto split: if_splits)
    from Cons.IH[OF q] obtain u where "cs = u @ snd q" "\<forall>c\<in>set u. P c" by blast
    with P have "c # cs = (c # u) @ snd q \<and> (\<forall>x\<in>set (c # u). P x)" by simp
    then show ?thesis by blast
  qed
qed



lemma mt_consume:
  "(q, g') \<in> set (mt U ic r ((p, rest), g)) \<Longrightarrow>
   \<exists>u. rest = u @ snd q \<and> (\<forall>c\<in>set u. \<exists>a\<in>atoms r. atom_match U ic a c)"
proof (induction r arbitrary: p rest g q g')
  case Eps
  then show ?case by simp
next
  case (Atom a)
  show ?case
  proof (cases rest)
    case Nil
    with Atom show ?thesis by simp
  next
    case (Cons c cs)
    with Atom have "atom_match U ic a c" "q = (Some c, cs)" by (simp_all split: if_splits)
    with Cons have "rest = [c] @ snd q \<and> (\<forall>x\<in>set [c]. \<exists>a'\<in>atoms (Atom a). atom_match U ic a' x)" by simp
    then show ?thesis by blast
  qed
next
  case (Rep a lo hi)
  then have "q \<in> set (rev (drop lo (spans (atom_match U ic a) hi p rest)))"
    by (simp add: image_iff)
  then have "q \<in> set (spans (atom_match U ic a) hi p rest)"
    by (simp add: in_set_dropD)
  from spans_consume[OF this] show ?case by simp
next
  case (Seq r1 r2)
  from Seq.prems obtain st1 where 1: "st1 \<in> set (mt U ic r1 ((p, rest), g))"
    and 2: "(q, g') \<in> set (mt U ic r2 st1)" by auto
  obtain p1 rest1 g1 where st1: "st1 = ((p1, rest1), g1)" by (metis surj_pair)
  from Seq.IH(1)[OF 1[unfolded st1]] obtain u1 where u1: "rest = u1 @ rest1" "\<forall>c\<in>set u1. \<exists>a\<in>atoms r1. atom_match U ic a c" by auto
  from Seq.IH(2)[OF 2[unfolded st1]] obtain u2 where u2: "rest1 = u2 @ snd q" "\<forall>c\<in>set u2. \<exists>a\<in>atoms r2. atom_match U ic a c" by blast
  from u1 u2 have "rest = (u1 @ u2) @ snd q \<and> (\<forall>c\<in>set (u1 @ u2). \<exists>a\<in>atoms (Seq r1 r2). atom_match U ic a c)"
    by auto
  then show ?case by blast
next
  case (Alt r1 r2)
  from Alt.prems have "(q, g') \<in> set (mt U ic r1 ((p, rest), g)) \<or> (q, g') \<in> set (mt U ic r2 ((p, rest), g))"
    by simp
  then show ?case
  proof
    assume "(q, g') \<in> set (mt U ic r1 ((p, rest), g))"
    from Alt.IH(1)[OF this] show ?thesis by (simp only: atoms.simps bex_Un) blast
  next
    assume "(q, g') \<in> set (mt U ic r2 ((p, rest), g))"
    from Alt.IH(2)[OF this] show ?thesis by (simp only: atoms.simps bex_Un) blast
  qed
next
  case (Group r)
  from Group.prems obtain g0 where "(q, g0) \<in> set (mt U ic r ((p, rest), g))" by auto
  from Group.IH[OF this] show ?case by simp
next
  case Bol
  then show ?case by (simp split: if_splits)
next
  case Eol
  then show ?case by (simp split: if_splits)
next
  case WordB
  then show ?case by (simp add: Let_def split: if_splits)
qed

lemma mt_group:
  "(q, g') \<in> set (mt U ic r ((p, rest), g)) \<Longrightarrow>
   g' = g \<or> (\<exists>u. g' = Some u \<and> (\<forall>c\<in>set u. \<exists>a\<in>group_atoms r. atom_match U ic a c))"
proof (induction r arbitrary: p rest g q g')
  case Eps
  then show ?case by simp
next
  case (Atom a)
  then show ?case by (cases rest) (simp_all split: if_splits)
next
  case (Rep a lo hi)
  then show ?case by (simp add: image_iff)
next
  case (Seq r1 r2)
  from Seq.prems obtain st1 where 1: "st1 \<in> set (mt U ic r1 ((p, rest), g))"
    and 2: "(q, g') \<in> set (mt U ic r2 st1)" by auto
  obtain p1 rest1 g1 where st1: "st1 = ((p1, rest1), g1)" by (metis surj_pair)
  from Seq.IH(1)[OF 1[unfolded st1]]
  have a: "g1 = g \<or> (\<exists>u. g1 = Some u \<and> (\<forall>c\<in>set u. \<exists>a\<in>group_atoms r1. atom_match U ic a c))" .
  from Seq.IH(2)[OF 2[unfolded st1]]
  have b: "g' = g1 \<or> (\<exists>u. g' = Some u \<and> (\<forall>c\<in>set u. \<exists>a\<in>group_atoms r2. atom_match U ic a c))" .
  from a b show ?case by (simp only: group_atoms.simps Un_iff bex_Un) blast
next
  case (Alt r1 r2)
  from Alt.prems have "(q, g') \<in> set (mt U ic r1 ((p, rest), g)) \<or> (q, g') \<in> set (mt U ic r2 ((p, rest), g))"
    by simp
  then show ?case
  proof
    assume "(q, g') \<in> set (mt U ic r1 ((p, rest), g))"
    from Alt.IH(1)[OF this] show ?thesis by (simp only: group_atoms.simps bex_Un) blast
  next
    assume "(q, g') \<in> set (mt U ic r2 ((p, rest), g))"
    from Alt.IH(2)[OF this] show ?thesis by (simp only: group_atoms.simps bex_Un) blast
  qed
next
  case (Group r)
  from Group.prems obtain q0 g0 where 0: "(q0, g0) \<in> set (mt U ic r ((p, rest), g))"
    and g': "g' = Some (take (length rest - length (snd q0)) rest)" by auto
  from mt_consume[OF 0] obtain u where "rest = u @ snd q0" "\<forall>c\<in>set u. \<exists>a\<in>atoms r. atom_match U ic a c" by blast
  with g' show ?case by simp
next
  case Bol
  then show ?case by (simp split: if_splits)
next
  case Eol
  then show ?case by (simp split: if_splits)
next
  case WordB
  then show ?case by (simp add: Let_def split: if_splits)
qed

lemma search_from_mt:
  "search_from U ic r i p s = Some (j, rest', g') \<Longrightarrow>
   \<exists>p0 s0 q. (q, g') \<in> set (mt U ic r ((p0, s0), None))"
proof (induction s arbitrary: i p)
  case Nil
  then show ?case by (simp split: list.splits prod.splits) (metis list.set_intros(1))
next
  case (Cons c cs)
  show ?case
  proof (cases "mt U ic r ((p, c # cs), None)")
    case Nil
    with Cons show ?thesis by simp
  next
    case (Cons x xs)
    with Cons.prems have "snd x = g'" by (simp split: prod.splits)
    then have "(fst x, g') \<in> set (mt U ic r ((p, c # cs), None))"
      using Cons by (metis list.set_intros(1) prod.collapse)
    then show ?thesis by blast
  qed
qed

lemma search_from_group:
  assumes "search_from U ic r i p s = Some (j, rest', Some u)"
  shows "\<forall>c\<in>set u. \<exists>a\<in>group_atoms r. atom_match U ic a c"
proof -
  from search_from_mt[OF assms] obtain p0 s0 q where "(q, Some u) \<in> set (mt U ic r ((p0, s0), None))"
    by blast
  from mt_group[OF this] show ?thesis by simp
qed

section \<open>Names without white space\<close>

lemma rep_space_no_match:
  "rest = [] \<or> \<not> py_isspace (hd rest) \<Longrightarrow> mt U ic (Rep Space (Suc n) hi) ((p, rest), g) = []"
  by (cases rest) auto

lemma re_sub_no_space:
  "no_space s \<Longrightarrow> re_sub U ic (Rep Space 1 None) repl p s = s"
proof (induction s arbitrary: p)
  case Nil
  then show ?case by simp
next
  case (Cons c cs)
  then have c: "\<not> py_isspace c" and cs: "no_space cs" by (simp_all add: no_space_def)
  from c have "mt U ic (Rep Space 1 None) ((p, c # cs), None) = []"
    using rep_space_no_match[of "c # cs" U ic 0 None p None] by simp
  with Cons.IH[OF cs] show ?case by simp
qed

lemma no_space_strip: "no_space s \<Longrightarrow> no_space (strip s)"
  by (auto simp: no_space_def strip_def dest!: set_dropWhileD)

lemma no_space_take: "no_space s \<Longrightarrow> no_space (take n s)"
  by (auto simp: no_space_def dest: in_set_takeD)

lemma no_space_norm_spaces: "no_space s \<Longrightarrow> no_space (norm_spaces U s)"
  by (simp only: norm_spaces_def re_sub_no_space no_space_strip)

lemma tone_mt_no_space:
  "rest = [] \<or> \<not> py_isspace (hd rest) \<Longrightarrow> mt U ic tone_re ((p, rest), g) = []"
  using rep_space_no_match[of rest U ic 0 None p g] by (simp add: tone_re_def)

lemma tone_search_no_space:
  "no_space s \<Longrightarrow> search_from U ic tone_re i p s = None"
proof (induction s arbitrary: i p)
  case Nil
  then show ?case by (simp add: tone_mt_no_space)
next
  case (Cons c cs)
  then have c: "\<not> py_isspace c" and cs: "no_space cs" by (simp_all add: no_space_def)
  from c have "mt U ic tone_re ((p, c # cs), None) = []" by (simp add: tone_mt_no_space)
  with Cons.IH[OF cs] show ?case by simp
qed

lemma parse_tone_no_space: "no_space name \<Longrightarrow> parse_tone U name = None"
  by (simp add: parse_tone_def Let_def re_search_def tone_search_no_space
      no_space_norm_spaces no_space_take)

lemma parse_filename_no_space: "no_space name \<Longrightarrow> parse_filename U name = None"
  by (simp add: parse_filename_def parse_tone_no_space)


lemma atom_no_space:
  assumes ok: "ucd_ok U" and m: "atom_match U True a c" and a: "a \<noteq> Space"
    and l: "\<And>x. a = Lit x \<Longrightarrow> ascii_cased x"
  shows "\<not> py_isspace c"
proof
  assume sp: "py_isspace c"
  with ok have low: "py_tolower U c = c" and dec: "\<not> py_isdecimal U c"
    by (simp_all add: ucd_ok_def)
  show False
  proof (cases a)
    case (Lit x)
    with l have x: "ascii_cased x" by simp
    with m Lit low have "c = ascii_lower x \<or> c \<in> set (ignore_fixes (ascii_lower x))" by simp
    with x sp show False
      by (auto simp: ascii_cased_def ascii_lower_def ignore_fixes_def py_isspace_def split: if_splits)
  next
    case Space
    with a show False by simp
  next
    case Digit
    with m dec show False by simp
  qed
qed

lemma tone_group_atoms:
  "a \<in> group_atoms tone_re \<Longrightarrow> a \<noteq> Space \<and> (\<forall>x. a = Lit x \<longrightarrow> ascii_cased x)"
  by (auto simp: tone_re_def ascii_cased_def)

lemma size_group_atoms:
  "a \<in> group_atoms size_re \<Longrightarrow> a \<noteq> Space \<and> (\<forall>x. a = Lit x \<longrightarrow> ascii_cased x)"
  by (auto simp: size_re_def ascii_cased_def)

lemma tone_group_no_space:
  assumes "ucd_ok U" and "search_from U True tone_re i p s = Some (j, rest', Some u)"
  shows "no_space u"
  unfolding no_space_def
proof
  fix c assume "c \<in> set u"
  with search_from_group[OF assms(2)] obtain a where "a \<in> group_atoms tone_re" "atom_match U True a c"
    by blast
  with tone_group_atoms[of a] atom_no_space[OF assms(1), of a c] show "\<not> py_isspace c" by blast
qed

lemma size_group_no_space:
  assumes "ucd_ok U" and "search_from U True size_re i p s = Some (j, rest', Some u)"
  shows "no_space u"
  unfolding no_space_def
proof
  fix c assume "c \<in> set u"
  with search_from_group[OF assms(2)] obtain a where "a \<in> group_atoms size_re" "atom_match U True a c"
    by blast
  with size_group_atoms[of a] atom_no_space[OF assms(1), of a c] show "\<not> py_isspace c" by blast
qed

lemma py_lower_no_space: "ucd_ok U \<Longrightarrow> no_space s \<Longrightarrow> no_space (py_lower U s)"
  by (simp add: ucd_ok_def)

lemma parse_tone_no_space_out:
  assumes ok: "ucd_ok U" and p: "parse_tone U name = Some (tn, b)"
  shows "no_space tn"
proof -
  from p obtain j rest' u where
    "search_from U True tone_re 0 None (norm_spaces U (take (length name - 4) name)) = Some (j, rest', Some u)"
    and tn: "tn = py_lower U u"
    by (auto simp: parse_tone_def Let_def re_search_def split: if_splits option.splits prod.splits)
  from tone_group_no_space[OF ok this(1)] tn show ?thesis
    by (simp add: py_lower_no_space[OF ok])
qed

lemma parse_size_no_space_out:
  assumes ok: "ucd_ok U" and p: "parse_size U b = Some sz"
  shows "no_space sz"
proof -
  from p obtain j rest' u where
    "search_from U True size_re 0 None b = Some (j, rest', Some u)" and sz: "sz = py_lower U u"
    by (auto simp: parse_size_def re_search_def split: option.splits prod.splits)
  from size_group_no_space[OF ok this(1)] sz show ?thesis
    by (simp add: py_lower_no_space[OF ok])
qed

lemma parse_family_cases:
  "parse_family U b = Some fam \<Longrightarrow> fam = ustr ''template'' \<or> fam = ustr ''aquarell''"
  by (auto simp: parse_family_def split: if_splits)

lemma parse_variant_cases:
  "parse_variant U b = ustr ''crop'' \<or> parse_variant U b = ustr ''close'' \<or>
   parse_variant U b = ustr ''full''"
  by (simp add: parse_variant_def)

lemma no_space_append: "no_space (xs @ ys) = (no_space xs \<and> no_space ys)"
  by (auto simp: no_space_def)

lemma build_new_name_no_space:
  assumes ok: "ucd_ok U" and p: "parse_filename U name = Some d"
  shows "no_space (build_new_name d)"
proof -
  from p obtain tn b sz fam where t: "parse_tone U name = Some (tn, b)"
    and s: "parse_size U b = Some sz" and f: "parse_family U b = Some fam"
    and d: "d = \<lparr>original = name, family = fam, size' = sz, variant = parse_variant U b, tone = tn\<rparr>"
    by (auto simp: parse_filename_def split: option.splits)
  have 1: "no_space tn" using parse_tone_no_space_out[OF ok t] .
  have 2: "no_space sz" using parse_size_no_space_out[OF ok s] .
  have 3: "no_space fam" using parse_family_cases[OF f]
    by (auto simp: no_space_def ustr_def py_isspace_def)
  have 4: "no_space (parse_variant U b)" using parse_variant_cases[of U b]
    by (auto simp: no_space_def ustr_def py_isspace_def)
  have 5: "no_space (ustr ''ckt-'')" "no_space (ustr ''-'')" "no_space (ustr ''.png'')"
    by (simp_all add: no_space_def ustr_def py_isspace_def)
  from 1 2 3 4 5 show ?thesis by (simp add: build_new_name_def d no_space_append)
qed

lemma parse_build_none:
  "ucd_ok U \<Longrightarrow> parse_filename U name = Some d \<Longrightarrow> parse_filename U (build_new_name d) = None"
  by (simp add: build_new_name_no_space parse_filename_no_space)

section \<open>The sample database and the list of duplicates\<close>

lemma ascii_lower_no_space: "\<not> py_isspace c \<Longrightarrow> \<not> py_isspace (ascii_lower c)"
  by (auto simp: py_isspace_def ascii_lower_def)

lemma ucd_ok_sample: "ucd_ok ucd_sample"
proof -
  have 1: "\<And>c. py_isspace c \<Longrightarrow> \<not> py_isdecimal ucd_sample c \<and> py_tolower ucd_sample c = c"
    by (auto simp: py_isspace_def py_isdecimal_def py_tolower_def ascii_lower_def ucd_sample_def)
  have 2: "no_space (py_lower ucd_sample s)" if s: "no_space s" for s
  proof (cases "list_all (\<lambda>c. c < 128) s")
    case True
    with s show ?thesis by (auto simp: py_lower_def no_space_def ascii_lower_no_space)
  next
    case False
    have "\<not> py_isspace 105" "\<not> py_isspace 775" "\<not> py_isspace 107"
      by (simp_all add: py_isspace_def)
    with False s show ?thesis
      by (auto simp: py_lower_def no_space_def ucd_sample_def ascii_lower_no_space split: if_splits)
  qed
  from 1 2 show ?thesis by (simp add: ucd_ok_def)
qed

lemma count_list_distinct: "distinct xs = (\<forall>t. count_list xs t \<le> 1)"
proof (induction xs)
  case Nil
  then show ?case by simp
next
  case (Cons x xs)
  show ?case
  proof
    assume d: "distinct (x # xs)"
    then have "x \<notin> set xs" "\<forall>t. count_list xs t \<le> 1" using Cons by simp_all
    then show "\<forall>t. count_list (x # xs) t \<le> 1" by (simp add: count_list_0_iff)
  next
    assume a: "\<forall>t. count_list (x # xs) t \<le> 1"
    then have "count_list xs x = 0" using spec[OF a, of x] by simp
    then have x: "x \<notin> set xs" by (simp add: count_list_0_iff)
    have "\<forall>t. count_list xs t \<le> 1"
    proof
      fix t show "count_list xs t \<le> 1" using spec[OF a, of t] by (simp split: if_splits)
    qed
    with Cons x show "distinct (x # xs)" by simp
  qed
qed

lemma set_main_dupes: "set (main_dupes ts) = {t. 1 < count_list ts t}"
proof -
  have "\<And>t. 1 < count_list ts t \<Longrightarrow> t \<in> set ts"
    by (metis count_list_0_iff not_less_zero)
  then show ?thesis by (auto simp: main_dupes_def)
qed

lemma main_dupes_empty: "(main_dupes ts = []) = distinct ts"
proof -
  have "(main_dupes ts = []) = (set (main_dupes ts) = {})" by simp
  also have "\<dots> = (\<forall>t. count_list ts t \<le> 1)" by (auto simp: set_main_dupes not_less)
  finally show ?thesis by (simp add: count_list_distinct)
qed

lemma main_dupes_sorted: "sorted (main_dupes ts) \<and> distinct (main_dupes ts)"
  by (simp add: main_dupes_def)

section \<open>The parser on the examples\<close>

text \<open>
  C3.  The name \<open>CKT template 90x90 cropped light.png\<close> is parsed to family
  \<open>template\<close>, size \<open>90x90\<close>, variant \<open>crop\<close> and tone \<open>light\<close>, and the name
  built from that is \<open>ckt-template-90x90-crop-light.png\<close>, whatever the Unicode
  database says beyond ASCII.
\<close>

theorem parse_example_1:
  "parse_filename U (ustr ''CKT template 90x90 cropped light.png'') =
     Some \<lparr>original = ustr ''CKT template 90x90 cropped light.png'',
           family = ustr ''template'', size' = ustr ''90x90'',
           variant = ustr ''crop'', tone = ustr ''light''\<rparr> \<and>
   build_new_name \<lparr>original = ustr ''CKT template 90x90 cropped light.png'',
           family = ustr ''template'', size' = ustr ''90x90'',
           variant = ustr ''crop'', tone = ustr ''light''\<rparr> =
     ustr ''ckt-template-90x90-crop-light.png''"
  by (simp add: parse_defs regex_defs char_defs)

text \<open>
  C10.  The size pattern is searched for anywhere, without a boundary before its first
  digit: \<open>CKT template 12345x67 light.png\<close>, whose width has five digits, is accepted
  with size \<open>2345x67\<close>.
\<close>

theorem size_not_anchored:
  "parse_filename U (ustr ''CKT template 12345x67 light.png'') =
     Some \<lparr>original = ustr ''CKT template 12345x67 light.png'',
           family = ustr ''template'', size' = ustr ''2345x67'',
           variant = ustr ''full'', tone = ustr ''light''\<rparr>"
  by (simp add: parse_defs regex_defs char_defs)

section \<open>Colliding targets\<close>

lemma main_collision:
  assumes "\<not> distinct (targets_of U os fs)"
  shows "main U os a fs = (Collisions (main_dupes (targets_of U os fs)), fs)"
proof -
  from assms have 1: "plan_of U os fs \<noteq> []" by auto
  from assms have 2: "main_dupes (targets_of U os fs) \<noteq> []" by (simp add: main_dupes_empty)
  from 1 2 show ?thesis by (simp add: main_def Let_def)
qed

lemma pair_dir_run:
  "main ucd_sample dir_os apply_args pair_dir =
     (Collisions [ustr ''ckt-template-90x90-crop-light.png''], pair_dir)"
  by (simp add: main_defs parse_defs regex_defs char_defs)

lemma pair_dir_plan:
  "plan_of ucd_sample dir_os pair_dir =
     [(ustr ''CKT TEMPLATE 90X90 CROPPED LIGHT.png'', ustr ''ckt-template-90x90-crop-light.png''),
      (ustr ''CKT template 90x90 cropped light.png'', ustr ''ckt-template-90x90-crop-light.png'')]"
  by (simp add: main_defs parse_defs regex_defs char_defs)

text \<open>
  C1.  Whenever two or more entries of the plan have the same target, the run ends with
  the collision message, which lists exactly the targets that occur more than once (all
  of them, in sorted order and each once), and the file system is left as it was.  For
  the directory that holds \<open>CKT template 90x90 cropped light.png\<close> and
  \<open>CKT TEMPLATE 90X90 CROPPED LIGHT.png\<close> the message lists
  \<open>ckt-template-90x90-crop-light.png\<close> (the witness).
\<close>

theorem collision_fails_whole_run:
  assumes "\<not> distinct (targets_of U os fs)"
  shows "main U os a fs = (Collisions (main_dupes (targets_of U os fs)), fs) \<and>
         set (main_dupes (targets_of U os fs)) = {t. 1 < count_list (targets_of U os fs) t} \<and>
         main_dupes (targets_of U os fs) \<noteq> [] \<and>
         sorted (main_dupes (targets_of U os fs)) \<and> distinct (main_dupes (targets_of U os fs))"
  using assms main_collision[OF assms]
  by (simp add: set_main_dupes main_dupes_empty main_dupes_sorted)

theorem collision_fails_whole_run_witness:
  "\<not> distinct (targets_of ucd_sample dir_os pair_dir) \<and>
   main ucd_sample dir_os apply_args pair_dir =
     (Collisions [ustr ''ckt-template-90x90-crop-light.png''], pair_dir)"
proof -
  have h: "\<not> distinct (targets_of ucd_sample dir_os pair_dir)"
    by (simp add: pair_dir_plan)
  from collision_fails_whole_run[OF h, of apply_args] h show ?thesis
    by (simp add: pair_dir_run)
qed

section \<open>Sources and targets of a plan\<close>

lemma main_mappings_entry:
  "(src, dst) \<in> set (main_mappings U ns) \<Longrightarrow>
   src \<in> set ns \<and> (\<exists>d. parse_filename U src = Some d \<and> dst = build_new_name d \<and> dst \<noteq> src)"
  by (induction ns) (auto simp: Let_def split: option.splits if_splits)

lemma main_mappings_source:
  "n \<in> set ns \<Longrightarrow> parse_filename U n = Some d \<Longrightarrow> build_new_name d \<noteq> n \<Longrightarrow>
   n \<in> fst ` set (main_mappings U ns)"
  by (induction ns) (auto simp: Let_def split: option.splits)

lemma main_mappings_empty:
  "(main_mappings U ns = []) =
   (\<forall>n\<in>set ns. case parse_filename U n of None \<Rightarrow> True | Some d \<Rightarrow> build_new_name d = n)"
  by (induction ns) (auto simp: Let_def split: option.splits)

lemma set_main_pngs:
  "set (main_pngs U os fs) =
   {n. (n, True) \<in> set (os_iterdir os fs) \<and> re_search U True PNG_RE n \<noteq> None}"
  by (auto simp: main_pngs_def image_iff)

lemma target_not_parsed:
  assumes "ucd_ok U" and "t \<in> snd ` set (main_mappings U ns)"
  shows "parse_filename U t = None"
proof -
  from assms(2) obtain src where "(src, t) \<in> set (main_mappings U ns)" by auto
  from main_mappings_entry[OF this] obtain d where "parse_filename U src = Some d" "t = build_new_name d"
    by blast
  with parse_build_none[OF assms(1)] show ?thesis by simp
qed

lemma target_not_source:
  assumes "ucd_ok U" and "t \<in> snd ` set (main_mappings U ns)"
  shows "t \<notin> fst ` set (main_mappings U ms)"
proof
  assume "t \<in> fst ` set (main_mappings U ms)"
  then obtain dst where "(t, dst) \<in> set (main_mappings U ms)" by auto
  from main_mappings_entry[OF this] obtain d where "parse_filename U t = Some d" by blast
  with target_not_parsed[OF assms] show False by simp
qed

lemma main_no_collision:
  assumes "distinct (targets_of U os fs)"
  shows "main U os a fs =
     (if plan_of U os fs = [] then (NoMatches, fs)
      else if main_existing os fs (plan_of U os fs) \<noteq> []
        then (TargetsExist (main_existing os fs (plan_of U os fs)), fs)
      else if \<not> args_apply a then (DryRun (plan_of U os fs), fs)
      else (case main_apply os (args_use_git a) (plan_of U os fs) fs of
              (Some e, fs') \<Rightarrow> (Raised e, fs')
            | (None, fs') \<Rightarrow> (Done (plan_of U os fs), fs')))"
  using assms by (simp add: main_def Let_def main_dupes_empty)

section \<open>Order of the checks\<close>

lemma close_dir_plan:
  "plan_of ucd_sample dir_os close_dir =
     [(ustr ''CKT template small close 60x50 dark.png'', ustr ''ckt-template-60x50-close-dark.png''),
      (ustr ''ckt TEMPLATE Small Close 60X50 Dark.PNG'', ustr ''ckt-template-60x50-close-dark.png'')]"
  by (simp add: main_defs parse_defs regex_defs char_defs)

text \<open>
  C9.  The duplicate check comes first: when a target is duplicated and some target
  also exists on disk, the run ends with the collision message, listing the
  duplicated targets only, and never with the message on existing targets.
\<close>

theorem collision_checked_before_exists:
  assumes "\<not> distinct (targets_of U os fs)"
    and "main_existing os fs (plan_of U os fs) \<noteq> []"
  shows "main U os a fs = (Collisions (main_dupes (targets_of U os fs)), fs) \<and>
         (\<forall>xs fs'. main U os a fs \<noteq> (TargetsExist xs, fs'))"
  using main_collision[OF assms(1), of a] by simp

theorem collision_checked_before_exists_witness:
  "\<not> distinct (targets_of ucd_sample dir_os close_dir) \<and>
   main_existing dir_os close_dir (plan_of ucd_sample dir_os close_dir) \<noteq> [] \<and>
   main ucd_sample dir_os apply_args close_dir =
     (Collisions [ustr ''ckt-template-60x50-close-dark.png''], close_dir)"
proof -
  have h1: "\<not> distinct (targets_of ucd_sample dir_os close_dir)"
    by (simp add: close_dir_plan)
  have h2: "main_existing dir_os close_dir (plan_of ucd_sample dir_os close_dir) \<noteq> []"
    by (simp add: close_dir_plan) (simp add: main_existing_def dir_os_def)
  have d: "main_dupes (targets_of ucd_sample dir_os close_dir) = [ustr ''ckt-template-60x50-close-dark.png'']"
    by (simp add: close_dir_plan) (simp add: main_dupes_def)
  from collision_checked_before_exists[OF h1 h2, of apply_args] h1 h2 d show ?thesis
    by simp
qed

section \<open>Existing targets\<close>

lemma pair_and_target_dir_plan:
  "plan_of ucd_sample dir_os pair_and_target_dir =
     [(ustr ''CKT TEMPLATE 90X90 CROPPED LIGHT.png'', ustr ''ckt-template-90x90-crop-light.png''),
      (ustr ''CKT template 90x90 cropped light.png'', ustr ''ckt-template-90x90-crop-light.png'')]"
  by (simp add: main_defs parse_defs regex_defs char_defs)

lemma single_and_target_dir_plan:
  "plan_of ucd_sample dir_os single_and_target_dir =
     [(ustr ''CKT template 90x90 cropped light.png'', ustr ''ckt-template-90x90-crop-light.png'')]"
  by (simp add: main_defs parse_defs regex_defs char_defs)

text \<open>
  C2, as stated, fails: in the directory that holds the two colliding names and
  \<open>ckt-template-90x90-crop-light.png\<close> itself, a computed target names an existing file
  that is not a source of the plan, and the run ends with the collision message, not
  with the message on existing targets.
\<close>

theorem exists_error_counterexample:
  "ustr ''ckt-template-90x90-crop-light.png'' \<in> set (targets_of ucd_sample dir_os pair_and_target_dir) \<and>
   os_exists dir_os pair_and_target_dir (ustr ''ckt-template-90x90-crop-light.png'') \<and>
   ustr ''ckt-template-90x90-crop-light.png'' \<notin> set (sources_of ucd_sample dir_os pair_and_target_dir) \<and>
   main ucd_sample dir_os apply_args pair_and_target_dir =
     (Collisions [ustr ''ckt-template-90x90-crop-light.png''], pair_and_target_dir)"
proof -
  have "\<not> distinct (targets_of ucd_sample dir_os pair_and_target_dir)"
    by (simp add: pair_and_target_dir_plan)
  from main_collision[OF this, of apply_args]
  have "main ucd_sample dir_os apply_args pair_and_target_dir =
     (Collisions [ustr ''ckt-template-90x90-crop-light.png''], pair_and_target_dir)"
    by (simp add: pair_and_target_dir_plan) (simp add: main_dupes_def)
  moreover have "os_exists dir_os pair_and_target_dir (ustr ''ckt-template-90x90-crop-light.png'')"
    by (simp add: dir_os_def)
  moreover have "ustr ''ckt-template-90x90-crop-light.png'' \<notin> set (sources_of ucd_sample dir_os pair_and_target_dir)"
    by (simp add: pair_and_target_dir_plan) (simp add: ustr_def)
  ultimately show ?thesis by (simp add: pair_and_target_dir_plan)
qed

text \<open>
  C2, amended.  When no target is duplicated, the run ends with the message on existing
  targets exactly when some target names an existing file that is not a source of the
  plan; the message then lists every such target and the file system is left as it
  was.  No target is ever a source of the plan, so the test of the code, which looks at
  the existing file only, agrees with this.
\<close>

theorem exists_error_without_collision:
  assumes "ucd_ok U" and "distinct (targets_of U os fs)"
  shows "(filter (\<lambda>t. os_exists os fs t \<and> t \<notin> set (sources_of U os fs)) (targets_of U os fs) \<noteq> [] \<longrightarrow>
            main U os a fs =
              (TargetsExist (filter (\<lambda>t. os_exists os fs t \<and> t \<notin> set (sources_of U os fs))
                               (targets_of U os fs)), fs)) \<and>
         (filter (\<lambda>t. os_exists os fs t \<and> t \<notin> set (sources_of U os fs)) (targets_of U os fs) = [] \<longrightarrow>
            (\<forall>xs fs'. main U os a fs \<noteq> (TargetsExist xs, fs'))) \<and>
         (\<forall>t\<in>set (targets_of U os fs). t \<notin> set (sources_of U os fs))"
proof -
  have ns: "\<forall>t\<in>set (targets_of U os fs). t \<notin> set (sources_of U os fs)"
    using target_not_source[OF assms(1)] by auto
  have e: "filter (\<lambda>t. os_exists os fs t \<and> t \<notin> set (sources_of U os fs)) (targets_of U os fs) =
      main_existing os fs (plan_of U os fs)"
    unfolding main_existing_def
  proof (rule filter_cong[OF refl])
    fix t assume "t \<in> set (targets_of U os fs)"
    with ns show "(os_exists os fs t \<and> t \<notin> set (sources_of U os fs)) = os_exists os fs t"
      by blast
  qed
  have p: "main_existing os fs (plan_of U os fs) \<noteq> [] \<Longrightarrow> plan_of U os fs \<noteq> []"
    by (auto simp: main_existing_def)
  show ?thesis
    unfolding e using ns p
    by (auto simp: main_no_collision[OF assms(2)] split: prod.splits option.splits)
qed

theorem exists_error_without_collision_witness:
  "ucd_ok ucd_sample \<and> distinct (targets_of ucd_sample dir_os single_and_target_dir) \<and>
   main ucd_sample dir_os apply_args single_and_target_dir =
     (TargetsExist [ustr ''ckt-template-90x90-crop-light.png''], single_and_target_dir)"
proof -
  have d: "distinct (targets_of ucd_sample dir_os single_and_target_dir)"
    by (simp add: single_and_target_dir_plan)
  have f: "filter (\<lambda>t. os_exists dir_os single_and_target_dir t \<and>
                        t \<notin> set (sources_of ucd_sample dir_os single_and_target_dir))
             (targets_of ucd_sample dir_os single_and_target_dir) =
           [ustr ''ckt-template-90x90-crop-light.png'']"
    by (simp add: single_and_target_dir_plan) (simp add: dir_os_def ustr_def)
  from exists_error_without_collision[OF ucd_ok_sample d, of apply_args] d ucd_ok_sample
  show ?thesis unfolding f by simp
qed

section \<open>Running twice\<close>

lemma skipped_again:
  assumes ok: "ucd_ok U"
    and h: "\<forall>(n, f)\<in>set (os_iterdir os fs2).
              ((n, f) \<in> set (os_iterdir os fs1) \<and> n \<notin> set (sources_of U os fs1)) \<or>
              n \<in> set (targets_of U os fs1)"
  shows "plan_of U os fs2 = []"
  unfolding main_mappings_empty
proof
  fix n assume "n \<in> set (main_pngs U os fs2)"
  then have n: "(n, True) \<in> set (os_iterdir os fs2)" and png: "re_search U True PNG_RE n \<noteq> None"
    by (simp_all add: set_main_pngs)
  from h n have "((n, True) \<in> set (os_iterdir os fs1) \<and> n \<notin> set (sources_of U os fs1)) \<or>
      n \<in> set (targets_of U os fs1)" by blast
  then show "case parse_filename U n of None \<Rightarrow> True | Some d \<Rightarrow> build_new_name d = n"
  proof
    assume a: "(n, True) \<in> set (os_iterdir os fs1) \<and> n \<notin> set (sources_of U os fs1)"
    with png have "n \<in> set (main_pngs U os fs1)" by (simp add: set_main_pngs)
    with a main_mappings_source[of n "main_pngs U os fs1" U] show ?thesis
      by (auto split: option.splits)
  next
    assume "n \<in> set (targets_of U os fs1)"
    then have "parse_filename U n = None" using target_not_parsed[OF ok] by simp
    then show ?thesis by simp
  qed
qed

lemma first_run:
  "main ucd_sample dir_os apply_args first_run_dir =
     (Done [(ustr ''CKT template 90x90 cropped light.png'', ustr ''ckt-template-90x90-crop-light.png'')],
      second_run_dir)"
  by (simp add: main_defs parse_defs regex_defs char_defs)

lemma first_run_plan:
  "plan_of ucd_sample dir_os first_run_dir =
     [(ustr ''CKT template 90x90 cropped light.png'', ustr ''ckt-template-90x90-crop-light.png'')]"
  by (simp add: main_defs parse_defs regex_defs char_defs)

text \<open>
  C5.  A name built from a parsed descriptor is never parsed again.  So a second run,
  on a directory each of whose entries is either an entry that the first run did not
  select or a target of the first run, finds nothing to rename.  Assumed of the Unicode
  database: \<open>ucd_ok\<close>.
\<close>

theorem second_run_finds_nothing:
  assumes "ucd_ok U"
    and "\<forall>(n, f)\<in>set (os_iterdir os fs2).
           ((n, f) \<in> set (os_iterdir os fs1) \<and> n \<notin> set (sources_of U os fs1)) \<or>
           n \<in> set (targets_of U os fs1)"
  shows "(\<forall>name d. parse_filename U name = Some d \<longrightarrow>
            parse_filename U (build_new_name d) = None) \<and>
         plan_of U os fs2 = [] \<and> main U os a fs2 = (NoMatches, fs2)"
proof -
  have "plan_of U os fs2 = []" using skipped_again[OF assms] .
  then show ?thesis using parse_build_none[OF assms(1)] by (simp add: main_def)
qed

theorem second_run_finds_nothing_witness:
  "ucd_ok ucd_sample \<and>
   main ucd_sample dir_os apply_args first_run_dir =
     (Done [(ustr ''CKT template 90x90 cropped light.png'', ustr ''ckt-template-90x90-crop-light.png'')],
      second_run_dir) \<and>
   list_all (\<lambda>(n, f).
      ((n, f) \<in> set (os_iterdir dir_os first_run_dir) \<and>
       n \<notin> set (sources_of ucd_sample dir_os first_run_dir)) \<or>
      n \<in> set (targets_of ucd_sample dir_os first_run_dir))
     (os_iterdir dir_os second_run_dir) \<and>
   parse_filename ucd_sample (ustr ''ckt-template-90x90-crop-light.png'') = None \<and>
   main ucd_sample dir_os apply_args second_run_dir = (NoMatches, second_run_dir)"
proof -
  have h: "\<forall>(n, f)\<in>set (os_iterdir dir_os second_run_dir).
      ((n, f) \<in> set (os_iterdir dir_os first_run_dir) \<and>
       n \<notin> set (sources_of ucd_sample dir_os first_run_dir)) \<or>
      n \<in> set (targets_of ucd_sample dir_os first_run_dir)"
    by (simp add: first_run_plan) (simp add: dir_os_def ustr_def)
  have p: "parse_filename ucd_sample (ustr ''CKT template 90x90 cropped light.png'') =
     Some \<lparr>original = ustr ''CKT template 90x90 cropped light.png'',
           family = ustr ''template'', size' = ustr ''90x90'',
           variant = ustr ''crop'', tone = ustr ''light''\<rparr>"
    by (simp add: parse_defs regex_defs char_defs)
  have b: "build_new_name \<lparr>original = ustr ''CKT template 90x90 cropped light.png'',
           family = ustr ''template'', size' = ustr ''90x90'',
           variant = ustr ''crop'', tone = ustr ''light''\<rparr> = ustr ''ckt-template-90x90-crop-light.png''"
    by (simp add: build_new_name_def ustr_def)
  from second_run_finds_nothing[OF ucd_ok_sample h, of apply_args] p b
  have "parse_filename ucd_sample (ustr ''ckt-template-90x90-crop-light.png'') = None \<and>
     main ucd_sample dir_os apply_args second_run_dir = (NoMatches, second_run_dir)"
    by metis
  with ucd_ok_sample first_run h show ?thesis unfolding list_all_iff by blast
qed

section \<open>Applying the plan\<close>

lemma main_apply_step:
  "main_apply os g ((src, dst) # ms) fs =
     (case the_mover os g fs src dst of
        (Some e, fs') \<Rightarrow> (Some e, fs')
      | (None, fs') \<Rightarrow> main_apply os g ms fs')"
  by (simp add: the_mover_def)

lemma main_apply_done:
  "(main_apply os g plan fs = (None, fs')) = applied_in_order (the_mover os g) plan fs fs'"
proof (induction plan arbitrary: fs)
  case Nil
  then show ?case by auto
next
  case (Cons m ms)
  obtain src dst where m: "m = (src, dst)" by (cases m)
  obtain r fs1 where mv: "the_mover os g fs src dst = (r, fs1)" by (cases "the_mover os g fs src dst")
  show ?case
    unfolding m main_apply_step using Cons.IH[of fs1] by (cases r) (simp_all add: mv)
qed

lemma main_apply_failed:
  "(main_apply os g plan fs = (Some e, fs')) =
   (\<exists>pre src dst post mid. plan = pre @ (src, dst) # post \<and>
      applied_in_order (the_mover os g) pre fs mid \<and>
      the_mover os g mid src dst = (Some e, fs'))"
proof (induction plan arbitrary: fs)
  case Nil
  then show ?case by simp
next
  case (Cons m ms)
  obtain src dst where m: "m = (src, dst)" by (cases m)
  obtain r fs1 where mv: "the_mover os g fs src dst = (r, fs1)" by (cases "the_mover os g fs src dst")
  show ?case
  proof (cases r)
    case None
    have "(\<exists>pre s d post mid. (src, dst) # ms = pre @ (s, d) # post \<and>
            applied_in_order (the_mover os g) pre fs mid \<and> the_mover os g mid s d = (Some e, fs')) =
          (\<exists>pre s d post mid. ms = pre @ (s, d) # post \<and>
            applied_in_order (the_mover os g) pre fs1 mid \<and> the_mover os g mid s d = (Some e, fs'))"
      (is "?L = ?R")
    proof
      assume ?L
      then obtain pre s d post mid where eq: "(src, dst) # ms = pre @ (s, d) # post"
        and ap: "applied_in_order (the_mover os g) pre fs mid"
        and f: "the_mover os g mid s d = (Some e, fs')" by blast
      show ?R
      proof (cases pre)
        case Nil
        with eq ap f mv None show ?thesis by simp
      next
        case (Cons x xs)
        with eq have x: "x = (src, dst)" and ms: "ms = xs @ (s, d) # post" by simp_all
        from ap Cons x mv None have "applied_in_order (the_mover os g) xs fs1 mid" by simp
        with ms f show ?thesis by blast
      qed
    next
      assume ?R
      then obtain pre s d post mid where ms: "ms = pre @ (s, d) # post"
        and ap: "applied_in_order (the_mover os g) pre fs1 mid"
        and f: "the_mover os g mid s d = (Some e, fs')" by blast
      from ms have "(src, dst) # ms = ((src, dst) # pre) @ (s, d) # post" by simp
      moreover from ap mv None have "applied_in_order (the_mover os g) ((src, dst) # pre) fs mid"
        by simp
      ultimately show ?L using f by blast
    qed
    with Cons.IH[of fs1] show ?thesis unfolding m main_apply_step by (simp add: mv None)
  next
    case (Some e1)
    have "(\<exists>pre s d post mid. (src, dst) # ms = pre @ (s, d) # post \<and>
            applied_in_order (the_mover os g) pre fs mid \<and> the_mover os g mid s d = (Some e, fs')) =
          (e1 = e \<and> fs1 = fs')" (is "?L = ?R")
    proof
      assume ?L
      then obtain pre s d post mid where eq: "(src, dst) # ms = pre @ (s, d) # post"
        and ap: "applied_in_order (the_mover os g) pre fs mid"
        and f: "the_mover os g mid s d = (Some e, fs')" by blast
      show ?R
      proof (cases pre)
        case Nil
        with eq ap f mv Some show ?thesis by simp
      next
        case (Cons x xs)
        with eq have "x = (src, dst)" by simp
        with ap Cons mv Some show ?thesis by simp
      qed
    next
      assume ?R
      with mv Some have "(src, dst) # ms = [] @ (src, dst) # ms \<and>
        applied_in_order (the_mover os g) [] fs fs \<and> the_mover os g fs src dst = (Some e, fs')"
        by simp
      then show ?L by blast
    qed
    then show ?thesis unfolding m main_apply_step by (simp add: mv Some)
  qed
qed

lemma main_raised:
  "main U os a fs = (Raised e, fs') \<Longrightarrow>
   main_apply os (args_use_git a) (plan_of U os fs) fs = (Some e, fs')"
  by (auto simp: main_def Let_def split: if_splits prod.splits option.splits)

lemma main_done:
  "main U os a fs = (Done pl, fs') \<Longrightarrow>
   pl = plan_of U os fs \<and> main_apply os (args_use_git a) (plan_of U os fs) fs = (None, fs')"
  by (auto simp: main_def Let_def split: if_splits prod.splits option.splits)

lemma three_dir_run:
  "main ucd_sample (failing_os (ustr ''CKT template 90x90 cropped light.png'')) apply_args three_dir =
     (Raised (ustr ''CKT template 90x90 cropped light.png''), three_dir_stopped)"
  by (simp add: main_def main_pngs_def main_dupes_def main_existing_def failing_os_def
      dir_move_def ucd_sample_def Let_def parse_defs regex_defs char_defs)

lemma three_dir_plan:
  "plan_of ucd_sample (failing_os (ustr ''CKT template 90x90 cropped light.png'')) three_dir =
     [(ustr ''CKT template 60x50 dark.png'', ustr ''ckt-template-60x50-full-dark.png''),
      (ustr ''CKT template 90x90 cropped light.png'', ustr ''ckt-template-90x90-crop-light.png''),
      (ustr ''CKT template small close 60x50 dark.png'', ustr ''ckt-template-60x50-close-dark.png'')]"
  by (simp add: main_pngs_def failing_os_def ucd_sample_def Let_def parse_defs regex_defs char_defs)

text \<open>
  C6.  The loop applies the moves in the order of the plan with the move primitive that
  the arguments select.  It ends without an exception exactly when every move, applied
  to the file system left by the one before, raised none.  It ends with an exception
  exactly when the plan splits into entries that were all applied in order, the entry
  whose move raised this exception, and the entries after it, which take no part: the
  file system returned is the one the failing move left, with the earlier renames in
  place.  A run of \<open>main\<close> that ends with an exception, or with \<open>Done\<close>, is such a loop
  over its plan.
\<close>

theorem apply_stops_at_first_failure:
  "((main_apply os g plan fs = (None, fs')) =
      applied_in_order (the_mover os g) plan fs fs') \<and>
   ((main_apply os g plan fs = (Some e, fs')) =
      (\<exists>pre src dst post mid. plan = pre @ (src, dst) # post \<and>
         applied_in_order (the_mover os g) pre fs mid \<and>
         the_mover os g mid src dst = (Some e, fs'))) \<and>
   (main U os a start = (Raised e, fs') \<longrightarrow>
      (\<exists>pre src dst post mid. plan_of U os start = pre @ (src, dst) # post \<and>
         applied_in_order (the_mover os (args_use_git a)) pre start mid \<and>
         the_mover os (args_use_git a) mid src dst = (Some e, fs'))) \<and>
   (main U os a start = (Done pl, fs') \<longrightarrow>
      pl = plan_of U os start \<and> applied_in_order (the_mover os (args_use_git a)) pl start fs')"
proof -
  have 1: "(main_apply os g plan fs = (None, fs')) = applied_in_order (the_mover os g) plan fs fs'"
    by (rule main_apply_done)
  have 2: "(main_apply os g plan fs = (Some e, fs')) =
      (\<exists>pre src dst post mid. plan = pre @ (src, dst) # post \<and>
         applied_in_order (the_mover os g) pre fs mid \<and>
         the_mover os g mid src dst = (Some e, fs'))"
    by (rule main_apply_failed)
  have 3: "main U os a start = (Raised e, fs') \<longrightarrow>
      (\<exists>pre src dst post mid. plan_of U os start = pre @ (src, dst) # post \<and>
         applied_in_order (the_mover os (args_use_git a)) pre start mid \<and>
         the_mover os (args_use_git a) mid src dst = (Some e, fs'))"
    using main_raised[of U os a start e fs'] by (simp add: main_apply_failed)
  have 4: "main U os a start = (Done pl, fs') \<longrightarrow>
      pl = plan_of U os start \<and> applied_in_order (the_mover os (args_use_git a)) pl start fs'"
    using main_done[of U os a start pl fs'] by (auto simp: main_apply_done)
  from 1 2 3 4 show ?thesis by blast
qed

theorem apply_stops_at_first_failure_witness:
  "main ucd_sample (failing_os (ustr ''CKT template 90x90 cropped light.png'')) apply_args three_dir =
     (Raised (ustr ''CKT template 90x90 cropped light.png''), three_dir_stopped) \<and>
   plan_of ucd_sample (failing_os (ustr ''CKT template 90x90 cropped light.png'')) three_dir =
     [(ustr ''CKT template 60x50 dark.png'', ustr ''ckt-template-60x50-full-dark.png'')] @
     (ustr ''CKT template 90x90 cropped light.png'', ustr ''ckt-template-90x90-crop-light.png'') #
     [(ustr ''CKT template small close 60x50 dark.png'', ustr ''ckt-template-60x50-close-dark.png'')] \<and>
   applied_in_order (the_mover (failing_os (ustr ''CKT template 90x90 cropped light.png'')) False)
     [(ustr ''CKT template 60x50 dark.png'', ustr ''ckt-template-60x50-full-dark.png'')]
     three_dir three_dir_stopped \<and>
   (\<exists>pre src dst post mid.
      plan_of ucd_sample (failing_os (ustr ''CKT template 90x90 cropped light.png'')) three_dir =
        pre @ (src, dst) # post \<and>
      applied_in_order (the_mover (failing_os (ustr ''CKT template 90x90 cropped light.png'')) False)
        pre three_dir mid \<and>
      the_mover (failing_os (ustr ''CKT template 90x90 cropped light.png'')) False mid src dst =
        (Some (ustr ''CKT template 90x90 cropped light.png''), three_dir_stopped))"
proof -
  have a: "applied_in_order (the_mover (failing_os (ustr ''CKT template 90x90 cropped light.png'')) False)
     [(ustr ''CKT template 60x50 dark.png'', ustr ''ckt-template-60x50-full-dark.png'')]
     three_dir three_dir_stopped"
    by (simp add: the_mover_def failing_os_def dir_move_def ustr_def)
  from apply_stops_at_first_failure[where os = "failing_os (ustr ''CKT template 90x90 cropped light.png'')"
      and U = ucd_sample and a = apply_args and start = three_dir and fs' = three_dir_stopped
      and e = "ustr ''CKT template 90x90 cropped light.png''"]
    three_dir_run
  have "\<exists>pre src dst post mid.
      plan_of ucd_sample (failing_os (ustr ''CKT template 90x90 cropped light.png'')) three_dir =
        pre @ (src, dst) # post \<and>
      applied_in_order (the_mover (failing_os (ustr ''CKT template 90x90 cropped light.png'')) False)
        pre three_dir mid \<and>
      the_mover (failing_os (ustr ''CKT template 90x90 cropped light.png'')) False mid src dst =
        (Some (ustr ''CKT template 90x90 cropped light.png''), three_dir_stopped)"
    by simp
  with three_dir_run three_dir_plan a show ?thesis by simp
qed

section \<open>The variant\<close>

text \<open>
  C7.  When the base without the tone contains the whole word \<open>cropped\<close> and also the
  phrase \<open>small close\<close> or \<open>small far\<close>, the variant is \<open>crop\<close>: the test for
  \<open>cropped\<close> comes first, and every descriptor returned for such a name has it.
\<close>

theorem cropped_wins:
  assumes "parse_tone U name = Some (tn, b)"
    and "re_search U True (word_re ''cropped'') b \<noteq> None"
    and "re_search U True (word_re ''small close'') b \<noteq> None \<or>
         re_search U True (word_re ''small far'') b \<noteq> None"
  shows "parse_variant U b = ustr ''crop'' \<and>
         (\<forall>d. parse_filename U name = Some d \<longrightarrow> variant d = ustr ''crop'')"
  using assms(1,2)
  by (auto simp: parse_variant_def parse_filename_def split: option.splits)

theorem cropped_wins_witness:
  "parse_tone ucd_sample (ustr ''CKT template small close 90x90 cropped light.png'') =
     Some (ustr ''light'', ustr ''CKT template small close 90x90 cropped'') \<and>
   re_search ucd_sample True (word_re ''cropped'') (ustr ''CKT template small close 90x90 cropped'') \<noteq> None \<and>
   re_search ucd_sample True (word_re ''small close'') (ustr ''CKT template small close 90x90 cropped'') \<noteq> None \<and>
   parse_filename ucd_sample (ustr ''CKT template small close 90x90 cropped light.png'') =
     Some \<lparr>original = ustr ''CKT template small close 90x90 cropped light.png'',
           family = ustr ''template'', size' = ustr ''90x90'',
           variant = ustr ''crop'', tone = ustr ''light''\<rparr> \<and>
   variant \<lparr>original = ustr ''CKT template small close 90x90 cropped light.png'',
           family = ustr ''template'', size' = ustr ''90x90'',
           variant = ustr ''crop'', tone = ustr ''light''\<rparr> = ustr ''crop''"
proof -
  have t: "parse_tone ucd_sample (ustr ''CKT template small close 90x90 cropped light.png'') =
     Some (ustr ''light'', ustr ''CKT template small close 90x90 cropped'')"
    by (simp add: parse_defs regex_defs char_defs)
  have c: "re_search ucd_sample True (word_re ''cropped'') (ustr ''CKT template small close 90x90 cropped'') \<noteq> None"
    by (simp add: parse_defs regex_defs char_defs)
  have s: "re_search ucd_sample True (word_re ''small close'') (ustr ''CKT template small close 90x90 cropped'') \<noteq> None"
    by (simp add: parse_defs regex_defs char_defs)
  have p: "parse_filename ucd_sample (ustr ''CKT template small close 90x90 cropped light.png'') =
     Some \<lparr>original = ustr ''CKT template small close 90x90 cropped light.png'',
           family = ustr ''template'', size' = ustr ''90x90'',
           variant = ustr ''crop'', tone = ustr ''light''\<rparr>"
    by (simp add: parse_defs regex_defs char_defs)
  from cropped_wins[OF t c disjI1[OF s]] p t c s show ?thesis by simp
qed

section \<open>Names of ASCII characters\<close>

lemma lits_match:
  "(q, g') \<in> set (mt U ic (lits w) ((p, rest), g)) \<Longrightarrow>
   g' = g \<and> (\<exists>u. rest = u @ snd q \<and>
      list_all2 (\<lambda>a c. atom_match U ic (Lit (of_char a)) c) w u)"
proof (induction w arbitrary: p rest rule: lits.induct)
  case 1
  then show ?case by simp
next
  case (2 c)
  then show ?case by (cases rest) (auto split: if_splits)
next
  case (3 c c' cs)
  show ?case
  proof (cases rest)
    case Nil
    with 3 show ?thesis by simp
  next
    case (Cons x xs)
    with "3.prems" have m: "atom_match U ic (Lit (of_char c)) x"
      and r: "(q, g') \<in> set (mt U ic (lits (c' # cs)) ((Some x, xs), g))"
      by (auto split: if_splits)
    from "3.IH"[OF r] obtain u where "g' = g" "xs = u @ snd q"
      "list_all2 (\<lambda>a c. atom_match U ic (Lit (of_char a)) c) (c' # cs) u" by blast
    with m Cons have "g' = g \<and> rest = (x # u) @ snd q \<and>
      list_all2 (\<lambda>a c. atom_match U ic (Lit (of_char a)) c) (c # c' # cs) (x # u)" by simp
    then show ?thesis by blast
  qed
qed

lemma spans_count:
  "q \<in> set (drop lo (spans P hi p rest)) \<Longrightarrow>
   \<exists>u. rest = u @ snd q \<and> lo \<le> length u \<and> (\<forall>n. hi = Some n \<longrightarrow> length u \<le> n) \<and>
       (\<forall>c\<in>set u. P c)"
proof (induction rest arbitrary: lo hi p)
  case Nil
  then show ?case by (cases lo) auto
next
  case (Cons c cs)
  show ?case
  proof (cases "lo = 0 \<and> q = (p, c # cs)")
    case True
    then show ?thesis by simp
  next
    case False
    with Cons.prems have P: "P c" and hi: "hi \<noteq> Some 0"
      and q: "q \<in> set (drop (lo - 1) (spans P (map_option (\<lambda>n. n - 1) hi) (Some c) cs))"
      by (cases lo; auto split: if_splits)+
    from Cons.IH[OF q] obtain u where u: "cs = u @ snd q" "lo - 1 \<le> length u"
      "\<forall>n. map_option (\<lambda>n. n - 1) hi = Some n \<longrightarrow> length u \<le> n" "\<forall>c\<in>set u. P c" by blast
    from u(3) hi have "\<forall>n. hi = Some n \<longrightarrow> length (c # u) \<le> n" by (cases hi) auto
    with u P have "c # cs = (c # u) @ snd q \<and> lo \<le> length (c # u) \<and>
       (\<forall>n. hi = Some n \<longrightarrow> length (c # u) \<le> n) \<and> (\<forall>x\<in>set (c # u). P x)" by auto
    then show ?thesis by blast
  qed
qed

lemma search_from_suffix:
  "search_from U ic r i p s = Some (j, rest', g') \<Longrightarrow>
   \<exists>p0 pre s0 p'. s = pre @ s0 \<and> ((p', rest'), g') \<in> set (mt U ic r ((p0, s0), None))"
proof (induction s arbitrary: i p)
  case Nil
  then obtain p' where "((p', rest'), g') \<in> set (mt U ic r ((p, []), None))"
    by (auto split: list.splits)
  then show ?case by blast
next
  case (Cons c cs)
  show ?case
  proof (cases "mt U ic r ((p, c # cs), None)")
    case Nil
    with Cons.prems have "search_from U ic r (i + 1) (Some c) cs = Some (j, rest', g')" by simp
    from Cons.IH[OF this] obtain p0 pre s0 p' where "cs = pre @ s0"
      "((p', rest'), g') \<in> set (mt U ic r ((p0, s0), None))" by blast
    then have "c # cs = (c # pre) @ s0 \<and> ((p', rest'), g') \<in> set (mt U ic r ((p0, s0), None))"
      by simp
    then show ?thesis by blast
  next
    case (Cons x xs)
    with Cons.prems obtain p' where "x = ((p', rest'), g')" by (auto split: prod.splits)
    with Cons have "c # cs = [] @ (c # cs) \<and> ((p', rest'), g') \<in> set (mt U ic r ((p, c # cs), None))"
      by simp
    then show ?thesis by blast
  qed
qed


lemma ascii_append: "ascii (xs @ ys) = (ascii xs \<and> ascii ys)"
  by (simp add: ascii_def)

lemma ascii_take: "ascii s \<Longrightarrow> ascii (take n s)"
  by (auto simp: ascii_def list_all_iff dest: in_set_takeD)

lemma ascii_strip: "ascii s \<Longrightarrow> ascii (strip s)"
  by (auto simp: ascii_def list_all_iff strip_def dest!: set_dropWhileD)

lemma re_sub_set:
  "set (re_sub U ic r repl p s) \<subseteq> set s \<union> set repl"
proof (induction U ic r repl p s rule: re_sub.induct)
  case (1 U ic r repl p)
  then show ?case by simp
next
  case (2 U ic r repl p c cs)
  show ?case
  proof (cases "mt U ic r ((p, c # cs), None)")
    case Nil
    with 2 show ?thesis by auto
  next
    case (Cons x xs)
    obtain p' rest' g where x: "x = ((p', rest'), g)" by (metis surj_pair)
    show ?thesis
    proof (cases "length rest' < length (c # cs)")
      case True
      from Cons x have "((p', rest'), g) \<in> set (mt U ic r ((p, c # cs), None))" by simp
      from mt_consume[OF this] obtain u where "c # cs = u @ rest'" by auto
      then have sub: "set rest' \<subseteq> set (c # cs)" by (metis set_append Un_upper2)
      from "2.IH"(2)[OF Cons x[symmetric] refl True]
      have "set (re_sub U ic r repl p' rest') \<subseteq> set rest' \<union> set repl" by simp
      with sub True Cons x show ?thesis by auto
    next
      case False
      from "2.IH"(3)[OF Cons x[symmetric] refl False] False Cons x show ?thesis by auto
    qed
  qed
qed

lemma ascii_norm_spaces: "ascii s \<Longrightarrow> ascii (norm_spaces U s)"
proof -
  assume s: "ascii s"
  have "ascii (ustr '' '')" by (simp add: ascii_def ustr_def)
  with s re_sub_set[of U False "Rep Space 1 None" "ustr '' ''" None s]
  have "ascii (re_sub U False (Rep Space 1 None) (ustr '' '') None s)"
    by (auto simp: ascii_def list_all_iff)
  then show ?thesis by (simp only: norm_spaces_def ascii_strip)
qed


lemma mt_Seq_in:
  "(x \<in> set (mt U ic (Seq r1 r2) st)) = (\<exists>st1\<in>set (mt U ic r1 st). x \<in> set (mt U ic r2 st1))"
  by simp

lemma mt_Alt_in:
  "(x \<in> set (mt U ic (Alt r1 r2) st)) = (x \<in> set (mt U ic r1 st) \<or> x \<in> set (mt U ic r2 st))"
  by simp

lemma mt_Group_in:
  "((p', rest'), g') \<in> set (mt U ic (Group r) ((p, rest), g)) \<Longrightarrow>
   (\<exists>g0. ((p', rest'), g0) \<in> set (mt U ic r ((p, rest), g))) \<and>
   g' = Some (take (length rest - length rest') rest)"
  by (auto simp: image_iff)

lemma mt_Eol_in:
  "(x \<in> set (mt U ic Eol st)) = (x = st \<and> (snd (fst st) = [] \<or> snd (fst st) = [10]))"
  by (cases st) auto

lemma mt_Rep_in:
  "(((p', rest'), g') \<in> set (mt U ic (Rep a lo hi) ((p, rest), g))) =
   ((p', rest') \<in> set (drop lo (spans (atom_match U ic a) hi p rest)) \<and> g' = g)"
  by (auto simp: image_iff)

lemma mt_Atom_in:
  "(((p', rest'), g') \<in> set (mt U ic (Atom a) ((p, rest), g))) =
   (\<exists>c. rest = c # rest' \<and> atom_match U ic a c \<and> p' = Some c \<and> g' = g)"
  by (cases rest) (auto simp del: atom_match.simps)

lemma tone_re_match:
  assumes "((p', rest'), g') \<in> set (mt U ic tone_re ((p, rest), g))"
  shows "\<exists>v u. rest = v @ u @ rest' \<and> g' = Some u \<and>
     (list_all2 (\<lambda>a c. atom_match U ic (Lit (of_char a)) c) ''light'' u \<or>
      list_all2 (\<lambda>a c. atom_match U ic (Lit (of_char a)) c) ''dark'' u)"
proof -
  let ?A = "Alt (lits ''light'') (lits ''dark'')"
  from assms obtain st1 where 1: "st1 \<in> set (mt U ic (Rep Space 1 None) ((p, rest), g))"
    and 2: "((p', rest'), g') \<in> set (mt U ic (Seq (Group ?A) Eol) st1)"
    unfolding tone_re_def mt_Seq_in[of _ _ _ "Rep Space 1 None"] by blast
  obtain p1 rest1 g1 where st1: "st1 = ((p1, rest1), g1)" by (metis surj_pair)
  from mt_consume[OF 1[unfolded st1]] obtain v where v: "rest = v @ rest1"
    by (simp only: snd_conv) blast
  from 2 obtain st2 where 3: "st2 \<in> set (mt U ic (Group ?A) ((p1, rest1), g1))"
    and 4: "((p', rest'), g') \<in> set (mt U ic Eol st2)"
    unfolding st1 mt_Seq_in[of _ _ _ "Group ?A"] by blast
  from 4 have st2: "st2 = ((p', rest'), g')" unfolding mt_Eol_in by simp
  from 3 obtain g0 where 5: "((p', rest'), g0) \<in> set (mt U ic ?A ((p1, rest1), g1))"
    and g': "g' = Some (take (length rest1 - length rest') rest1)"
    unfolding st2 using mt_Group_in by blast
  from 5 have "((p', rest'), g0) \<in> set (mt U ic (lits ''light'') ((p1, rest1), g1)) \<or>
      ((p', rest'), g0) \<in> set (mt U ic (lits ''dark'') ((p1, rest1), g1))"
    unfolding mt_Alt_in .
  then have "\<exists>u. rest1 = u @ rest' \<and>
           (list_all2 (\<lambda>a c. atom_match U ic (Lit (of_char a)) c) ''light'' u \<or>
            list_all2 (\<lambda>a c. atom_match U ic (Lit (of_char a)) c) ''dark'' u)"
  proof
    assume "((p', rest'), g0) \<in> set (mt U ic (lits ''light'') ((p1, rest1), g1))"
    from lits_match[OF this] show ?thesis by (simp only: snd_conv) blast
  next
    assume "((p', rest'), g0) \<in> set (mt U ic (lits ''dark'') ((p1, rest1), g1))"
    from lits_match[OF this] show ?thesis by (simp only: snd_conv) blast
  qed
  then obtain u where u: "rest1 = u @ rest'"
    and m: "list_all2 (\<lambda>a c. atom_match U ic (Lit (of_char a)) c) ''light'' u \<or>
            list_all2 (\<lambda>a c. atom_match U ic (Lit (of_char a)) c) ''dark'' u"
    by blast
  from u g' have "g' = Some u" by simp
  with v u m show ?thesis by blast
qed

lemma size_re_match:
  assumes "((p', rest'), g') \<in> set (mt U ic size_re ((p, rest), g))"
  shows "\<exists>w x h. rest = w @ [x] @ h @ rest' \<and> g' = Some (w @ [x] @ h) \<and>
     2 \<le> length w \<and> length w \<le> 4 \<and> 2 \<le> length h \<and> length h \<le> 4 \<and>
     (\<forall>c\<in>set (w @ h). py_isdecimal U c) \<and> atom_match U ic (Lit 120) x"
proof -
  let ?D = "Rep Digit 2 (Some 4)"
  let ?X = "Atom (Lit 120)"
  have sr: "size_re = Group (Seq ?D (Seq ?X ?D))" by (simp add: size_re_def)
  from assms obtain g0 where 0: "((p', rest'), g0) \<in> set (mt U ic (Seq ?D (Seq ?X ?D)) ((p, rest), g))"
    and g': "g' = Some (take (length rest - length rest') rest)"
    unfolding sr using mt_Group_in by blast
  from 0 obtain st1 where 1: "st1 \<in> set (mt U ic ?D ((p, rest), g))"
    and 2: "((p', rest'), g0) \<in> set (mt U ic (Seq ?X ?D) st1)"
    unfolding mt_Seq_in[of _ _ _ ?D] by blast
  obtain p1 rest1 g1 where st1: "st1 = ((p1, rest1), g1)" by (metis surj_pair)
  from 1 have "(p1, rest1) \<in> set (drop 2 (spans (atom_match U ic Digit) (Some 4) p rest))"
    unfolding st1 mt_Rep_in by blast
  from spans_count[OF this] obtain w where w: "rest = w @ rest1" "2 \<le> length w" "length w \<le> 4"
    "\<forall>c\<in>set w. py_isdecimal U c" by auto
  from 2 obtain st2 where 3: "st2 \<in> set (mt U ic ?X ((p1, rest1), g1))"
    and 4: "((p', rest'), g0) \<in> set (mt U ic ?D st2)"
    unfolding st1 mt_Seq_in[of _ _ _ ?X] by blast
  obtain p2 rest2 g2 where st2: "st2 = ((p2, rest2), g2)" by (metis surj_pair)
  from 3 obtain x where x: "rest1 = x # rest2" "atom_match U ic (Lit 120) x"
    unfolding st2 mt_Atom_in by blast
  from 4 have "(p', rest') \<in> set (drop 2 (spans (atom_match U ic Digit) (Some 4) p2 rest2))"
    unfolding st2 mt_Rep_in by blast
  from spans_count[OF this] obtain h where h: "rest2 = h @ rest'" "2 \<le> length h" "length h \<le> 4"
    "\<forall>c\<in>set h. py_isdecimal U c" by auto
  from w(1) x(1) h(1) have r: "rest = w @ [x] @ h @ rest'" by simp
  with g' have gs: "g' = Some (w @ [x] @ h)" by simp
  from w(4) h(4) have d: "\<forall>c\<in>set (w @ h). py_isdecimal U c" by auto
  from r gs w(2,3) h(2,3) d x(2) show ?thesis by blast
qed


text \<open>The group of either pattern is set in every match.\<close>

lemma tone_group_set: "re_search U ic tone_re s \<noteq> Some (j, rest', None)"
proof
  assume "re_search U ic tone_re s = Some (j, rest', None)"
  then have "search_from U ic tone_re 0 None s = Some (j, rest', None)"
    by (simp add: re_search_def)
  from search_from_suffix[OF this] obtain p0 s0 p' where
    "((p', rest'), None) \<in> set (mt U ic tone_re ((p0, s0), None))" by blast
  from tone_re_match[OF this] show False by simp
qed

lemma size_group_set: "re_search U ic size_re s \<noteq> Some (j, rest', None)"
proof
  assume "re_search U ic size_re s = Some (j, rest', None)"
  then have "search_from U ic size_re 0 None s = Some (j, rest', None)"
    by (simp add: re_search_def)
  from search_from_suffix[OF this] obtain p0 s0 p' where
    "((p', rest'), None) \<in> set (mt U ic size_re ((p0, s0), None))" by blast
  from size_re_match[OF this] show False by simp
qed

lemma ascii_lit_lower:
  assumes "c < 128" and "97 \<le> a" and "a \<le> 122" and "atom_match U True (Lit a) c"
  shows "ascii_lower c = a"
proof -
  from assms(2,3) have a: "ascii_cased a" "ascii_lower a = a"
    by (simp_all add: ascii_cased_def ascii_lower_def)
  from assms(1) have c: "py_tolower U c = ascii_lower c" "ascii_lower c < 128 + 32"
    by (simp_all add: py_tolower_def ascii_lower_def)
  from assms(4) a c(1) have "ascii_lower c = a \<or> ascii_lower c \<in> set (ignore_fixes a)" by simp
  with c(2) show ?thesis by (auto simp: ignore_fixes_def split: if_splits)
qed

lemma lits_lower:
  "list_all2 (\<lambda>a c. atom_match U True (Lit (of_char a)) c) w u \<Longrightarrow> ascii u \<Longrightarrow>
   \<forall>a\<in>set w. 97 \<le> (of_char a :: nat) \<and> (of_char a :: nat) \<le> 122 \<Longrightarrow>
   map ascii_lower u = ustr w"
proof (induction rule: list_all2_induct)
  case Nil
  then show ?case by (simp add: ustr_def)
next
  case (Cons a w c u)
  from Cons.prems have c: "c < 128" and u: "ascii u" by (simp_all add: ascii_def)
  from Cons.prems have a: "97 \<le> (of_char a :: nat)" "(of_char a :: nat) \<le> 122" by simp_all
  from ascii_lit_lower[OF c a Cons.hyps(1)] Cons.IH[OF u] Cons.prems(2)
  show ?case by (simp add: ustr_def)
qed

lemma py_lower_ascii: "ascii s \<Longrightarrow> py_lower U s = map ascii_lower s"
  by (simp add: py_lower_def ascii_def)

lemma parse_tone_ascii:
  assumes a: "ascii name" and p: "parse_tone U name = Some (tn, b)"
  shows "(tn = ustr ''light'' \<or> tn = ustr ''dark'') \<and> ascii b \<and> name \<noteq> []"
proof -
  let ?base = "norm_spaces U (take (length name - 4) name)"
  from p have png: "re_search U True PNG_RE name \<noteq> None"
    by (auto simp: parse_tone_def split: if_splits)
  have "re_search U True PNG_RE [] = None" by (simp add: re_search_def PNG_RE_def)
  with png have ne: "name \<noteq> []" by auto
  from p obtain j rest' u where s: "search_from U True tone_re 0 None ?base = Some (j, rest', Some u)"
    and tn: "tn = py_lower U u" and b: "b = strip (take j ?base)"
    by (auto simp: parse_tone_def Let_def re_search_def split: if_splits option.splits prod.splits)
  have base: "ascii ?base" using a by (simp add: ascii_norm_spaces ascii_take)
  from search_from_suffix[OF s] obtain p0 pre s0 p' where pre: "?base = pre @ s0"
    and m: "((p', rest'), Some u) \<in> set (mt U True tone_re ((p0, s0), None))" by blast
  from tone_re_match[OF m] obtain v where v: "s0 = v @ u @ rest'"
    and l: "list_all2 (\<lambda>a c. atom_match U True (Lit (of_char a)) c) ''light'' u \<or>
            list_all2 (\<lambda>a c. atom_match U True (Lit (of_char a)) c) ''dark'' u" by blast
  from base pre v have u: "ascii u" by (simp add: ascii_append)
  have "map ascii_lower u = ustr ''light'' \<or> map ascii_lower u = ustr ''dark''"
    using l
  proof
    assume "list_all2 (\<lambda>a c. atom_match U True (Lit (of_char a)) c) ''light'' u"
    from lits_lower[OF this u] show ?thesis by simp
  next
    assume "list_all2 (\<lambda>a c. atom_match U True (Lit (of_char a)) c) ''dark'' u"
    from lits_lower[OF this u] show ?thesis by simp
  qed
  with tn u have "tn = ustr ''light'' \<or> tn = ustr ''dark''" by (simp add: py_lower_ascii)
  moreover from base b have "ascii b" by (simp add: ascii_strip ascii_take)
  ultimately show ?thesis using ne by simp
qed

lemma parse_size_ascii:
  assumes a: "ascii b" and p: "parse_size U b = Some sz"
  shows "\<exists>w h. sz = w @ ustr ''x'' @ h \<and> 2 \<le> length w \<and> length w \<le> 4 \<and>
     2 \<le> length h \<and> length h \<le> 4 \<and> (\<forall>c\<in>set (w @ h). 48 \<le> c \<and> c \<le> 57)"
proof -
  from p obtain j rest' u where s: "search_from U True size_re 0 None b = Some (j, rest', Some u)"
    and sz: "sz = py_lower U u"
    by (auto simp: parse_size_def re_search_def split: option.splits prod.splits)
  from search_from_suffix[OF s] obtain p0 pre s0 p' where pre: "b = pre @ s0"
    and m: "((p', rest'), Some u) \<in> set (mt U True size_re ((p0, s0), None))" by blast
  from size_re_match[OF m] obtain w x h where r: "s0 = w @ [x] @ h @ rest'"
    and u: "u = w @ [x] @ h" and len: "2 \<le> length w" "length w \<le> 4" "2 \<le> length h" "length h \<le> 4"
    and d: "\<forall>c\<in>set (w @ h). py_isdecimal U c" and x: "atom_match U True (Lit 120) x" by blast
  from a pre r have au: "ascii w" "x < 128" "ascii h" by (simp_all add: ascii_append ascii_def)
  from au(1,3) d have dig: "\<forall>c\<in>set (w @ h). 48 \<le> c \<and> c \<le> 57"
    by (auto simp: ascii_def list_all_iff py_isdecimal_def)
  have low: "ascii_lower c = c" if "c \<in> set (w @ h)" for c
  proof -
    from that dig have "48 \<le> c \<and> c \<le> 57" by blast
    then show ?thesis by (simp add: ascii_lower_def)
  qed
  have "map ascii_lower w = w" by (rule map_idI) (simp add: low)
  moreover have "map ascii_lower h = h" by (rule map_idI) (simp add: low)
  moreover have "ascii_lower x = 120" using ascii_lit_lower[OF au(2) _ _ x] by simp
  moreover from au u have "ascii u" by (simp add: ascii_append ascii_def)
  ultimately have "sz = w @ ustr ''x'' @ h" using sz u by (simp add: py_lower_ascii ustr_def)
  with len dig show ?thesis by blast
qed

text \<open>
  On names of ASCII characters the parser keeps to the stated domains: the descriptor
  holds the name, a family \<open>template\<close> or \<open>aquarell\<close>, a size of two to four digits,
  \<open>x\<close>, and two to four digits, a variant \<open>full\<close>, \<open>crop\<close> or \<open>close\<close>, and a tone
  \<open>light\<close> or \<open>dark\<close>.
\<close>

theorem ascii_names_in_domain:
  assumes "ascii name" and "parse_filename U name = Some d"
  shows "original d = name \<and> name \<noteq> [] \<and>
     (family d = ustr ''template'' \<or> family d = ustr ''aquarell'') \<and>
     (\<exists>w h. size' d = w @ ustr ''x'' @ h \<and> 2 \<le> length w \<and> length w \<le> 4 \<and>
        2 \<le> length h \<and> length h \<le> 4 \<and> (\<forall>c\<in>set (w @ h). 48 \<le> c \<and> c \<le> 57)) \<and>
     (variant d = ustr ''crop'' \<or> variant d = ustr ''close'' \<or> variant d = ustr ''full'') \<and>
     (tone d = ustr ''light'' \<or> tone d = ustr ''dark'')"
proof -
  from assms(2) obtain tn b sz fam where t: "parse_tone U name = Some (tn, b)"
    and s: "parse_size U b = Some sz" and f: "parse_family U b = Some fam"
    and d: "d = \<lparr>original = name, family = fam, size' = sz, variant = parse_variant U b, tone = tn\<rparr>"
    by (auto simp: parse_filename_def split: option.splits)
  from parse_tone_ascii[OF assms(1) t] have 1: "tn = ustr ''light'' \<or> tn = ustr ''dark''"
    and b: "ascii b" and ne: "name \<noteq> []" by simp_all
  from parse_size_ascii[OF b s] parse_family_cases[OF f] parse_variant_cases[of U b] 1 ne
  show ?thesis unfolding d by simp
qed

theorem ascii_names_in_domain_witness:
  "ascii (ustr ''CKT template small close 60x50 dark.png'') \<and>
   parse_filename ucd_sample (ustr ''CKT template small close 60x50 dark.png'') =
     Some \<lparr>original = ustr ''CKT template small close 60x50 dark.png'',
           family = ustr ''template'', size' = ustr ''60x50'',
           variant = ustr ''close'', tone = ustr ''dark''\<rparr> \<and>
   build_new_name \<lparr>original = ustr ''CKT template small close 60x50 dark.png'',
           family = ustr ''template'', size' = ustr ''60x50'',
           variant = ustr ''close'', tone = ustr ''dark''\<rparr> =
     ustr ''ckt-template-60x50-close-dark.png''"
proof -
  have a: "ascii (ustr ''CKT template small close 60x50 dark.png'')"
    by (simp add: ascii_def ustr_def)
  have p: "parse_filename ucd_sample (ustr ''CKT template small close 60x50 dark.png'') =
     Some \<lparr>original = ustr ''CKT template small close 60x50 dark.png'',
           family = ustr ''template'', size' = ustr ''60x50'',
           variant = ustr ''close'', tone = ustr ''dark''\<rparr>"
    by (simp add: parse_defs regex_defs char_defs)
  from ascii_names_in_domain[OF a p] a p show ?thesis
    by (simp add: build_new_name_def ustr_def)
qed

section \<open>Letters beyond ASCII in the tone\<close>

text \<open>
  C4 does not hold of the code.  Under \<open>re.IGNORECASE\<close> the letter \<open>i\<close> of the tone
  pattern also matches the dotless i (U+0131, code point 305), which \<open>str.lower\<close> leaves
  as it is: the name \<open>CKT template 90x90 light.png\<close> written with a dotless i is
  accepted, and the name built for it has a tone that is neither \<open>light\<close> nor \<open>dark\<close>.
\<close>

theorem wire_format_dotless_i:
  "parse_filename ucd_sample (ustr ''CKT template 90x90 l'' @ [305] @ ustr ''ght.png'') =
     Some \<lparr>original = ustr ''CKT template 90x90 l'' @ [305] @ ustr ''ght.png'',
           family = ustr ''template'', size' = ustr ''90x90'',
           variant = ustr ''full'', tone = ustr ''l'' @ [305] @ ustr ''ght''\<rparr> \<and>
   build_new_name \<lparr>original = ustr ''CKT template 90x90 l'' @ [305] @ ustr ''ght.png'',
           family = ustr ''template'', size' = ustr ''90x90'',
           variant = ustr ''full'', tone = ustr ''l'' @ [305] @ ustr ''ght''\<rparr> =
     ustr ''ckt-template-90x90-full-l'' @ [305] @ ustr ''ght.png'' \<and>
   ustr ''ckt-template-90x90-full-l'' @ [305] @ ustr ''ght.png'' \<noteq>
     ustr ''ckt-template-90x90-full-light.png'' \<and>
   ustr ''ckt-template-90x90-full-l'' @ [305] @ ustr ''ght.png'' \<noteq>
     ustr ''ckt-template-90x90-full-dark.png''"
  by (simp add: parse_defs regex_defs char_defs ucd_sample_def)

text \<open>
  C8 does not hold of the code, by the same defect.  The letter \<open>i\<close> of the tone pattern
  also matches the capital I with dot above (U+0130, code point 304), which \<open>str.lower\<close>
  turns into \<open>i\<close> followed by the combining dot U+0307 (code point 775): the descriptor
  returned for \<open>CKT template 90x90 LIGHT.png\<close> written with that letter has a tone of
  six characters, outside \<open>light\<close> and \<open>dark\<close>.
\<close>

theorem tone_outside_domain:
  "parse_filename ucd_sample (ustr ''CKT template 90x90 L'' @ [304] @ ustr ''GHT.png'') =
     Some \<lparr>original = ustr ''CKT template 90x90 L'' @ [304] @ ustr ''GHT.png'',
           family = ustr ''template'', size' = ustr ''90x90'',
           variant = ustr ''full'', tone = ustr ''li'' @ [775] @ ustr ''ght''\<rparr> \<and>
   ustr ''li'' @ [775] @ ustr ''ght'' \<noteq> ustr ''light'' \<and>
   ustr ''li'' @ [775] @ ustr ''ght'' \<noteq> ustr ''dark''"
  by (simp add: parse_defs regex_defs char_defs ucd_sample_def)

end
